theory Spec2Isabelle
  imports Complex_Main "HOL-Library.Word"
begin

unbundle bit_operations_syntax

section \<open>The low-dimensional haploid population: data model\<close>

text \<open>
  The development follows \<^verbatim>\<open>haploid_gt_dis.cpp\<close>. A C++ \<^verbatim>\<open>double\<close> is modelled
  by a \<^typ>\<open>real\<close>: sums, products and \<^verbatim>\<open>exp\<close> are the exact ones, so every
  statement below is about the exact arithmetic that the floating-point code
  approximates. A C++ \<^verbatim>\<open>int\<close> that indexes a genotype or a locus is a \<^typ>\<open>nat\<close>;
  \<^verbatim>\<open>1<<k\<close> is \<open>2 ^ k\<close>, and \<^verbatim>\<open>i&(1<<k)\<close> is \<open>i AND 2 ^ k\<close>. The number of loci is
  taken small enough for \<^verbatim>\<open>1<<number_of_loci\<close> to fit an \<^verbatim>\<open>int\<close>, as the arrays of
  \<open>2 ^ number_of_loci\<close> entries require. An array is a function from its index to
  its entry; only indices the code touches are ever read.
\<close>

subsection \<open>Return codes\<close>

text \<open>
  Modelled from the spec: the integer return codes. The header that defines
  \<^verbatim>\<open>HG_MEMERR\<close>, \<^verbatim>\<open>HG_BADARG\<close> and \<^verbatim>\<open>HG_EXTINCT\<close> is not part of the sources at
  hand; the specification says that 0 is success and that the three failures
  are distinguished sentinel values. \<open>OK\<close> stands for the code 0, and the
  test \<^verbatim>\<open>err==0\<close> is the test \<open>err = OK\<close>.
\<close>

datatype retcode = OK | HG_MEMERR | HG_BADARG | HG_EXTINCT

subsection \<open>The hypercube\<close>

datatype hc_state = HC_FUNC | HC_COEFF | HC_UNKNOWN

text \<open>
  The source reads and writes the members \<^verbatim>\<open>func\<close>, \<^verbatim>\<open>coeff\<close> and \<^verbatim>\<open>order\<close> of a
  hypercube and calls \<^verbatim>\<open>set_state\<close>, \<^verbatim>\<open>get_state\<close>, \<^verbatim>\<open>scale\<close> and the two
  transforms. The class itself is declared and implemented in files that are
  not at hand.
\<close>

record hypercube =
  dimension :: nat
  state :: hc_state
  func :: "nat \<Rightarrow> real"
  coeff :: "nat \<Rightarrow> real"

text \<open>
  Modelled from the spec: \<^verbatim>\<open>order[i]\<close>, the precomputed number of set bits of
  the index \<open>i\<close>. It is the same table in every hypercube of one engine.
\<close>

fun order_tab :: "nat \<Rightarrow> nat" where
  "order_tab i = (if i = 0 then 0 else i mod 2 + order_tab (i div 2))"

declare order_tab.simps [simp del]

text \<open>
  Modelled from the spec: \<^verbatim>\<open>set_state\<close> declares which representation is
  authoritative; pure bookkeeping, no data movement.
\<close>

definition set_state :: "hc_state \<Rightarrow> hypercube \<Rightarrow> hypercube" where
  "set_state s h = h\<lparr>state := s\<rparr>"

definition get_state :: "hypercube \<Rightarrow> hc_state" where
  "get_state h = state h"

text \<open>
  Modelled from the spec: \<^verbatim>\<open>scale(factor)\<close> multiplies all values, of whichever
  representation is active, by a scalar.
\<close>

definition scale :: "real \<Rightarrow> hypercube \<Rightarrow> hypercube" where
  "scale factor h =
     (case state h of
        HC_FUNC \<Rightarrow> h\<lparr>func := (\<lambda>i. if i < 2 ^ dimension h then func h i * factor else func h i)\<rparr>
      | HC_COEFF \<Rightarrow> h\<lparr>coeff := (\<lambda>i. if i < 2 ^ dimension h then coeff h i * factor else coeff h i)\<rparr>
      | HC_UNKNOWN \<Rightarrow> h)"

definition get_func :: "hypercube \<Rightarrow> nat \<Rightarrow> real" where
  "get_func h i = func h i"

subsection \<open>The engine\<close>

text \<open>
  \<open>mutation_rates 0\<close> is the row of forward rates, \<open>mutation_rates 1\<close> the row of
  backward rates. \<open>recombination_patters s\<close> is the row of the locus subset \<open>s\<close>.
  The random number generator of the GSL is a value of an arbitrary type \<open>'r\<close>.
\<close>

record 'r haploid_gt_dis =
  mem :: bool
  free_recombination :: bool
  outcrossing_rate :: real
  generation :: int
  long_time_generation :: real
  circular :: bool
  number_of_loci :: nat
  population_size :: real
  fitness :: hypercube
  population :: hypercube
  mutants :: hypercube
  recombinants :: hypercube
  mutation_rates :: "nat \<Rightarrow> nat \<Rightarrow> real"
  recombination_patters :: "nat \<Rightarrow> nat \<Rightarrow> real"
  rng :: 'r

subsection \<open>What the engine takes from outside\<close>

text \<open>
  The macros \<^verbatim>\<open>HG_CONTINUOUS\<close>, \<^verbatim>\<open>HG_NOTHING\<close> and \<^verbatim>\<open>HG_LONGTIMEGEN\<close>, the default
  argument of \<^verbatim>\<open>resample\<close>, the two random draws of the GSL and the two transforms
  of the hypercube are defined in files that are not at hand. The engine takes
  them as parameters. A draw consumes the generator and returns the next one.

  The frequencies are real numbers here. The source's doubles can also be
  infinite or not a number, after a division by zero or the square root of a
  negative number, and the source goes on computing with such values. Nothing is
  said here about what \<^verbatim>\<open>resample\<close> returns and leaves in that case: the driver
  takes it from the last parameter, \<open>resample_beyond_reals\<close>.
\<close>

record 'r externals =
  HG_CONTINUOUS :: real
  HG_NOTHING :: real
  HG_LONGTIMEGEN :: int
  resample_default_n :: real
  gsl_ran_poisson :: "'r \<Rightarrow> real \<Rightarrow> nat \<times> 'r"
  gsl_ran_gaussian :: "'r \<Rightarrow> real \<Rightarrow> real \<times> 'r"
  fft_func_to_coeff :: "hypercube \<Rightarrow> hypercube"
  fft_coeff_to_func :: "hypercube \<Rightarrow> hypercube"
  resample_beyond_reals :: "'r haploid_gt_dis \<Rightarrow> retcode \<times> 'r haploid_gt_dis"

section \<open>Selection\<close>

text \<open>
  \<^verbatim>\<open>select()\<close>: one pass over the genotypes multiplies each frequency by
  \<^verbatim>\<open>exp(fitness.func[i])\<close> and accumulates \<^verbatim>\<open>norm\<close>; then the population is scaled
  by \<^verbatim>\<open>1.0/norm\<close>. When \<^verbatim>\<open>norm\<close> is 0 the source divides by zero and leaves values
  that are no numbers, whereas \<open>1 / 0\<close> is \<open>0\<close> here: what is stated below about the
  values after \<^verbatim>\<open>select()\<close> is stated for a \<^verbatim>\<open>norm\<close> that is not 0, or holds of both.
\<close>

definition select_loop :: "(nat \<Rightarrow> real) \<Rightarrow> nat \<Rightarrow> (nat \<Rightarrow> real) \<times> real \<Rightarrow> (nat \<Rightarrow> real) \<times> real" where
  "select_loop fit n start =
     fold (\<lambda>i (p, norm). let p' = p(i := p i * exp (fit i)) in (p', norm + p' i)) [0..<n] start"

definition select :: "'r haploid_gt_dis \<Rightarrow> retcode \<times> 'r haploid_gt_dis" where
  "select st =
     (let pop0 = set_state HC_FUNC (population st);
          (p, norm) = select_loop (func (fitness st)) (2 ^ number_of_loci st) (func pop0, 0);
          pop1 = scale (1 / norm) (pop0\<lparr>func := p\<rparr>)
      in (OK, st\<lparr>population := pop1\<rparr>))"

section \<open>Mutation\<close>

text \<open>
  \<^verbatim>\<open>mutate()\<close>: the first loop fills \<^verbatim>\<open>mutants.func\<close> from the population, the
  second adds it to the population.
\<close>

definition mutate_locus :: "(nat \<Rightarrow> nat \<Rightarrow> real) \<Rightarrow> (nat \<Rightarrow> real) \<Rightarrow> nat \<Rightarrow> nat \<Rightarrow> real" where
  "mutate_locus rates p i locus =
     (if i AND 2 ^ locus \<noteq> 0
      then rates 0 locus * p (i - 2 ^ locus) - rates 1 locus * p i
      else rates 1 locus * p (i + 2 ^ locus) - rates 0 locus * p i)"

definition mutate_fill :: "(nat \<Rightarrow> nat \<Rightarrow> real) \<Rightarrow> (nat \<Rightarrow> real) \<Rightarrow> nat \<Rightarrow> (nat \<Rightarrow> real) \<Rightarrow> (nat \<Rightarrow> real)" where
  "mutate_fill rates p L m0 =
     fold (\<lambda>i m. fold (\<lambda>locus m. m(i := m i + mutate_locus rates p i locus)) [0..<L] (m(i := 0)))
       [0..<2 ^ L] m0"

definition mutate_add :: "(nat \<Rightarrow> real) \<Rightarrow> nat \<Rightarrow> (nat \<Rightarrow> real) \<Rightarrow> (nat \<Rightarrow> real)" where
  "mutate_add m L p0 = fold (\<lambda>i p. p(i := p i + m i)) [0..<2 ^ L] p0"

definition mutate :: "'r haploid_gt_dis \<Rightarrow> retcode \<times> 'r haploid_gt_dis" where
  "mutate st =
     (let L = number_of_loci st;
          mut0 = set_state HC_FUNC (mutants st);
          pop0 = set_state HC_FUNC (population st);
          m = mutate_fill (mutation_rates st) (func pop0) L (func mut0);
          p = mutate_add m L (func pop0)
      in (OK, st\<lparr>mutants := mut0\<lparr>func := m\<rparr>, population := pop0\<lparr>func := p\<rparr>\<rparr>))"

section \<open>Resampling\<close>

text \<open>
  \<^verbatim>\<open>resample(n)\<close> first chooses \<^verbatim>\<open>pop_size\<close>; \<open>resample_with\<close> is the rest of the body
  with \<^verbatim>\<open>pop_size\<close> chosen. \<open>resample_genotype\<close> is one iteration of the loop: it
  carries the frequencies, \<^verbatim>\<open>norm\<close> and the generator.

  Three operations of the body leave the real numbers: the division by
  \<^verbatim>\<open>pop_size\<close> when \<^verbatim>\<open>pop_size\<close> is 0, the square root when \<^verbatim>\<open>population[i]/pop_size\<close>
  is negative, and \<^verbatim>\<open>1.0/norm\<close> when \<^verbatim>\<open>norm\<close> is 0. The source then goes on with
  values that are infinite or not a number. Each of them is a branch of its own
  here, with the result \<open>None\<close>: the values of the population are no real numbers
  any more. Once an iteration of the loop has the result \<open>None\<close>, so has the
  loop.
\<close>

definition resample_genotype ::
  "'r externals \<Rightarrow> real \<Rightarrow> real \<Rightarrow> nat \<Rightarrow> (nat \<Rightarrow> real) \<times> real \<times> 'r
     \<Rightarrow> ((nat \<Rightarrow> real) \<times> real \<times> 'r) option" where
  "resample_genotype ext pop_size threshold_HG_CONTINUOUS i =
     (\<lambda>(p, norm, g).
        if p i < threshold_HG_CONTINUOUS
        then (let (k, g') = gsl_ran_poisson ext g (pop_size * p i);
                  p' = p(i := real k / pop_size)
              in Some (p', norm + p' i, g'))
        else if p i / pop_size < 0 then None
        else (let (x, g') = gsl_ran_gaussian ext g (sqrt (p i / pop_size));
                  p' = p(i := p i + x)
              in Some (p', norm + p' i, g')))"

definition resample_with ::
  "'r externals \<Rightarrow> real \<Rightarrow> 'r haploid_gt_dis \<Rightarrow> (retcode \<times> 'r haploid_gt_dis) option" where
  "resample_with ext pop_size st =
     (if pop_size = 0 then None
      else
        let pop0 = set_state HC_FUNC (population st);
            threshold_HG_CONTINUOUS = HG_CONTINUOUS ext / pop_size
        in case fold (\<lambda>i acc. Option.bind acc (resample_genotype ext pop_size threshold_HG_CONTINUOUS i))
                  [0..<2 ^ number_of_loci st] (Some (func pop0, 0, rng st)) of
             None \<Rightarrow> None
           | Some acc \<Rightarrow>
               let (p, norm, g) = acc;
                   st1 = st\<lparr>population := pop0\<lparr>func := p\<rparr>, rng := g\<rparr>
               in if norm < HG_NOTHING ext then Some (HG_EXTINCT, st1)
                  else if norm = 0 then None
                  else Some (OK, st1\<lparr>population := scale (1 / norm) (population st1)\<rparr>))"

definition resample ::
  "'r externals \<Rightarrow> real \<Rightarrow> 'r haploid_gt_dis \<Rightarrow> (retcode \<times> 'r haploid_gt_dis) option" where
  "resample ext n st =
     (let pop_size = (if n < 1 then population_size st else n)
      in resample_with ext pop_size st)"

text \<open>
  The generator that the loop of \<^verbatim>\<open>resample\<close> holds when it reaches genotype \<open>i\<close>: a
  helper to state what the loop computes.
\<close>

primrec rng_at :: "'r externals \<Rightarrow> real \<Rightarrow> (nat \<Rightarrow> real) \<Rightarrow> 'r \<Rightarrow> nat \<Rightarrow> 'r" where
  "rng_at ext N p g0 0 = g0"
| "rng_at ext N p g0 (Suc i) =
     (if p i < HG_CONTINUOUS ext / N
      then snd (gsl_ran_poisson ext (rng_at ext N p g0 i) (N * p i))
      else snd (gsl_ran_gaussian ext (rng_at ext N p g0 i) (sqrt (p i / N))))"

section \<open>Recombination\<close>

text \<open>
  The loop over \<open>k\<close> that builds \<^verbatim>\<open>maternal_alleles\<close> and \<^verbatim>\<open>paternal_alleles\<close> from the
  subset \<open>i\<close> and the partition number \<open>j\<close>; it carries \<^verbatim>\<open>count\<close> and the two masks.
\<close>

definition partition_step :: "nat \<Rightarrow> nat \<Rightarrow> nat \<Rightarrow> nat \<times> nat \<times> nat \<Rightarrow> nat \<times> nat \<times> nat" where
  "partition_step i j k =
     (\<lambda>(count, maternal_alleles, paternal_alleles).
        if i AND 2 ^ k \<noteq> 0
        then (if j AND 2 ^ count \<noteq> 0
              then (count + 1, maternal_alleles + 2 ^ k, paternal_alleles)
              else (count + 1, maternal_alleles, paternal_alleles + 2 ^ k))
        else (count, maternal_alleles, paternal_alleles))"

definition partition_masks :: "nat \<Rightarrow> nat \<Rightarrow> nat \<Rightarrow> nat \<times> nat" where
  "partition_masks L i j = snd (fold (partition_step i j) [0..<L] (0, 0, 0))"

definition recombinant_coeff_free :: "nat \<Rightarrow> (nat \<Rightarrow> real) \<Rightarrow> nat \<Rightarrow> (nat \<Rightarrow> real) \<Rightarrow> (nat \<Rightarrow> real)" where
  "recombinant_coeff_free L pc i c =
     (let c1 = c(i := 0);
          c2 = fold (\<lambda>j c. let (maternal_alleles, paternal_alleles) = partition_masks L i j
                            in c(i := c i + pc maternal_alleles * pc paternal_alleles))
                    [0..<2 ^ order_tab i] c1
      in c2(i := c2 i * (1 * 2 ^ (L - order_tab i))))"

definition calculate_recombinants_free :: "'r externals \<Rightarrow> 'r haploid_gt_dis \<Rightarrow> retcode \<times> 'r haploid_gt_dis" where
  "calculate_recombinants_free ext st =
     (let L = number_of_loci st;
          pop1 = fft_func_to_coeff ext (population st);
          rec0 = set_state HC_COEFF (recombinants st);
          c0 = (coeff rec0)(0 := 1 / 2 ^ L);
          c = fold (recombinant_coeff_free L (coeff pop1)) [1..<2 ^ L] c0;
          rec1 = fft_coeff_to_func ext (rec0\<lparr>coeff := c\<rparr>)
      in (OK, st\<lparr>population := pop1, recombinants := rec1\<rparr>))"

definition recombinant_coeff_general ::
  "nat \<Rightarrow> (nat \<Rightarrow> nat \<Rightarrow> real) \<Rightarrow> (nat \<Rightarrow> real) \<Rightarrow> nat \<Rightarrow> (nat \<Rightarrow> real) \<Rightarrow> (nat \<Rightarrow> real)" where
  "recombinant_coeff_general L rp pc i c =
     (let c1 = c(i := 0);
          c2 = fold (\<lambda>j c. let (maternal_alleles, paternal_alleles) = partition_masks L i j
                            in c(i := c i + rp i j * pc maternal_alleles * pc paternal_alleles))
                    [0..<2 ^ order_tab i] c1
      in c2(i := c2 i * 2 ^ L))"

definition calculate_recombinants_general :: "'r externals \<Rightarrow> 'r haploid_gt_dis \<Rightarrow> retcode \<times> 'r haploid_gt_dis" where
  "calculate_recombinants_general ext st =
     (let L = number_of_loci st;
          pop1 = fft_func_to_coeff ext (population st);
          rec0 = set_state HC_COEFF (recombinants st);
          c0 = (coeff rec0)(0 := 1 / 2 ^ L);
          c = fold (recombinant_coeff_general L (recombination_patters st) (coeff pop1)) [1..<2 ^ L] c0;
          rec1 = fft_coeff_to_func ext (rec0\<lparr>coeff := c\<rparr>)
      in (OK, st\<lparr>population := pop1, recombinants := rec1\<rparr>))"

definition calculate_recombinants :: "'r externals \<Rightarrow> 'r haploid_gt_dis \<Rightarrow> retcode \<times> 'r haploid_gt_dis" where
  "calculate_recombinants ext st =
     (if free_recombination st then calculate_recombinants_free ext st
      else calculate_recombinants_general ext st)"

definition recombine :: "'r externals \<Rightarrow> 'r haploid_gt_dis \<Rightarrow> retcode \<times> 'r haploid_gt_dis" where
  "recombine ext st =
     (let (err, st1) = calculate_recombinants ext st;
          pop0 = set_state HC_FUNC (population st1);
          r = func (recombinants st1);
          p = (if free_recombination st1
               then fold (\<lambda>i p. p(i := p i + outcrossing_rate st1 * (r i - p i)))
                         [0..<2 ^ number_of_loci st1] (func pop0)
               else fold (\<lambda>i p. p(i := r i)) [0..<2 ^ number_of_loci st1] (func pop0))
      in (err, st1\<lparr>population := pop0\<lparr>func := p\<rparr>\<rparr>))"

section \<open>Setting the mutation rates\<close>

text \<open>
  The four overloads of \<^verbatim>\<open>set_mutation_rate\<close>: one rate, a forward and a backward
  rate, one rate per locus, and one rate per direction and locus. The message
  written to \<^verbatim>\<open>cerr\<close> is not modelled.
\<close>

definition upd2 :: "(nat \<Rightarrow> nat \<Rightarrow> real) \<Rightarrow> nat \<Rightarrow> nat \<Rightarrow> real \<Rightarrow> (nat \<Rightarrow> nat \<Rightarrow> real)" where
  "upd2 t a b v = t(a := (t a)(b := v))"

definition set_mutation_rate :: "real \<Rightarrow> 'r haploid_gt_dis \<Rightarrow> retcode \<times> 'r haploid_gt_dis" where
  "set_mutation_rate m st =
     (if mem st
      then (OK, st\<lparr>mutation_rates :=
                    fold (\<lambda>fb t. fold (\<lambda>locus t. upd2 t fb locus m) [0..<number_of_loci st] t)
                         [0..<2] (mutation_rates st)\<rparr>)
      else (HG_MEMERR, st))"

definition set_mutation_rate_fb :: "real \<Rightarrow> real \<Rightarrow> 'r haploid_gt_dis \<Rightarrow> retcode \<times> 'r haploid_gt_dis" where
  "set_mutation_rate_fb mforward mbackward st =
     (if mem st
      then (OK, st\<lparr>mutation_rates :=
                    fold (\<lambda>locus t. upd2 (upd2 t 0 locus mforward) 1 locus mbackward)
                         [0..<number_of_loci st] (mutation_rates st)\<rparr>)
      else (HG_MEMERR, st))"

definition set_mutation_rate_loci :: "(nat \<Rightarrow> real) \<Rightarrow> 'r haploid_gt_dis \<Rightarrow> retcode \<times> 'r haploid_gt_dis" where
  "set_mutation_rate_loci m st =
     (if mem st
      then (OK, st\<lparr>mutation_rates :=
                    fold (\<lambda>locus t. upd2 (upd2 t 0 locus (m locus)) 1 locus (m locus))
                         [0..<number_of_loci st] (mutation_rates st)\<rparr>)
      else (HG_MEMERR, st))"

definition set_mutation_rate_table :: "(nat \<Rightarrow> nat \<Rightarrow> real) \<Rightarrow> 'r haploid_gt_dis \<Rightarrow> retcode \<times> 'r haploid_gt_dis" where
  "set_mutation_rate_table m st =
     (if mem st
      then (OK, st\<lparr>mutation_rates :=
                    fold (\<lambda>fb t. fold (\<lambda>locus t. upd2 t fb locus (m fb locus)) [0..<number_of_loci st] t)
                         [0..<2] (mutation_rates st)\<rparr>)
      else (HG_MEMERR, st))"

section \<open>Recombination patterns\<close>

text \<open>
  \<^verbatim>\<open>set_recombination_rates(rec_rates)\<close>. The first block allocates one row per
  locus subset when the engine is still in the free-recombination mode. What the
  allocator does is a parameter: \<open>nspins_is_null\<close> says that the temporary
  \<^verbatim>\<open>nspins\<close> came back \<^verbatim>\<open>NULL\<close>, \<open>null_rows\<close> counts the rows that came back
  \<^verbatim>\<open>NULL\<close> (the value of \<^verbatim>\<open>err\<close> after the block). The sizes of the rows are not
  modelled: a row is a function on all indices.

  \<open>base_pattern_entry\<close> is one iteration of the loop that fills the row of the
  full subset, \<open>marginalize_subset\<close> the body of the test on the order of
  \<^verbatim>\<open>subset\<close> (here \<open>subset_i\<close>). The search for \<^verbatim>\<open>marg_locus\<close> with its \<^verbatim>\<open>break\<close> is \<^const>\<open>find\<close>; if it
  found nothing the source would shift by \<open>-1\<close>, which cannot happen for a subset
  of fewer than \<open>L\<close> loci, and the model leaves the table as it is.
\<close>

definition base_pattern_entry ::
  "(nat \<Rightarrow> real) \<Rightarrow> nat \<Rightarrow> nat \<Rightarrow> (nat \<Rightarrow> nat \<Rightarrow> real) \<times> real \<Rightarrow> (nat \<Rightarrow> nat \<Rightarrow> real) \<times> real" where
  "base_pattern_entry rec_rates L i =
     (\<lambda>(rp, sum).
        let full = 2 ^ L - 1;
            rp1 = upd2 rp full i 1;
            strand0 = (if i AND 2 ^ (L - 1) > 0 then 1 else 0 :: nat);
            (rp2, strand, strandswitches) =
              fold (\<lambda>locus (rp, strand, strandswitches).
                      let newstrand = (if i AND 2 ^ locus > 0 then 1 else 0 :: nat)
                      in if strand = newstrand
                         then (upd2 rp full i (rp full i * (0.5 * (1 + exp (- 2 * rec_rates locus)))),
                               newstrand, strandswitches)
                         else (upd2 rp full i (rp full i * (0.5 * (1 - exp (- 2 * rec_rates locus)))),
                               newstrand, strandswitches + 1))
                   [0..<L] (rp1, strand0, 0 :: nat);
            rp3 = (if strandswitches mod 2 \<noteq> 0 then upd2 rp2 full i 0 else rp2)
        in (rp3, sum + rp3 full i))"

definition marginalize_subset ::
  "nat \<Rightarrow> nat \<Rightarrow> nat \<Rightarrow> (nat \<Rightarrow> nat \<Rightarrow> real) \<Rightarrow> (nat \<Rightarrow> nat \<Rightarrow> real)" where
  "marginalize_subset L set_size subset_i rp =
     (case find (\<lambda>locus. subset_i AND 2 ^ locus = 0) [0..<L] of
        None \<Rightarrow> rp
      | Some marg_locus \<Rightarrow>
          let higher_order_subset = subset_i + 2 ^ marg_locus
          in fold (\<lambda>rec_pattern rp.
                     let higher_order_rec_pattern =
                           (rec_pattern AND (2 ^ marg_locus - 1))
                           + push_bit 1 (rec_pattern AND (2 ^ set_size - 2 ^ marg_locus))
                     in upd2 rp subset_i rec_pattern
                          (rp higher_order_subset higher_order_rec_pattern
                           + rp higher_order_subset (higher_order_rec_pattern + 2 ^ marg_locus)))
                  [0..<2 ^ set_size] rp)"

definition marginalize_all :: "nat \<Rightarrow> (nat \<Rightarrow> nat \<Rightarrow> real) \<Rightarrow> (nat \<Rightarrow> nat \<Rightarrow> real)" where
  "marginalize_all L rp0 =
     fold (\<lambda>set_size rp.
             fold (\<lambda>subset_i rp. if order_tab subset_i = set_size
                                then marginalize_subset L set_size subset_i rp else rp)
                  [0..<2 ^ L] rp)
          (rev [0..<L]) rp0"

definition set_recombination_rates ::
  "bool \<Rightarrow> nat \<Rightarrow> (nat \<Rightarrow> real) \<Rightarrow> 'r haploid_gt_dis \<Rightarrow> retcode \<times> 'r haploid_gt_dis" where
  "set_recombination_rates nspins_is_null null_rows rec_rates st =
     (if free_recombination st \<and> nspins_is_null then (HG_MEMERR, st)
      else
        let err = (if free_recombination st then null_rows else 0)
        in if err = 0
           then
             let L = number_of_loci st;
                 full = 2 ^ L - 1;
                 (rp1, sum) = fold (base_pattern_entry rec_rates L) [0..<2 ^ L]
                                   (recombination_patters st, 0);
                 rp2 = fold (\<lambda>i rp. upd2 rp full i (rp full i / sum)) [0..<2 ^ L] rp1;
                 rp3 = marginalize_all L rp2
             in (OK, st\<lparr>recombination_patters := rp3, free_recombination := False\<rparr>)
           else (HG_MEMERR, st))"

section \<open>Fitness statistics\<close>

text \<open>
  Modelled from the spec: \<^verbatim>\<open>stat_t\<close>, the pair of a mean and a variance that
  \<^verbatim>\<open>get_fitness_statistics\<close> returns; its declaration is not at hand.
\<close>

record stat_t =
  mean :: real
  variance :: real

definition get_fitness_statistics :: "'r externals \<Rightarrow> 'r haploid_gt_dis \<Rightarrow> stat_t \<times> 'r haploid_gt_dis" where
  "get_fitness_statistics ext st =
     (let pop = (if get_state (population st) = HC_COEFF
                 then fft_coeff_to_func ext (population st) else population st);
          (mf, sq) = fold (\<lambda>locus (mf, sq).
                             let temp = get_func pop locus * get_func (fitness st) locus
                             in (mf + temp, sq + temp * temp))
                          [0..<2 ^ number_of_loci st] (0, 0)
      in (\<lparr>mean = mf, variance = sq - mf\<rparr>, st\<lparr>population := pop\<rparr>))"

section \<open>The evolution driver\<close>

text \<open>
  \<^verbatim>\<open>evolve(gen)\<close>. The body of the loop runs the four operators, each under the
  test \<^verbatim>\<open>err==0\<close>, and then counts the generation, whatever \<^verbatim>\<open>err\<close> is. The loop
  runs while \<^verbatim>\<open>err==0\<close> and \<^verbatim>\<open>g<gen\<close>: \<open>evolve_loop\<close> recurses on the generations
  left. The driver is written over any four operators and any counting step, so
  that it can also be run on operators that keep a record of their calls.
\<close>

definition guarded :: "('s \<Rightarrow> retcode \<times> 's) \<Rightarrow> retcode \<times> 's \<Rightarrow> retcode \<times> 's" where
  "guarded operator = (\<lambda>(err, s). if err = OK then operator s else (err, s))"

definition evolve_body ::
  "('s \<Rightarrow> retcode \<times> 's) \<Rightarrow> ('s \<Rightarrow> retcode \<times> 's) \<Rightarrow> ('s \<Rightarrow> retcode \<times> 's) \<Rightarrow> ('s \<Rightarrow> retcode \<times> 's)
     \<Rightarrow> ('s \<Rightarrow> 's) \<Rightarrow> retcode \<times> 's \<Rightarrow> retcode \<times> 's" where
  "evolve_body sel mut rec res tick start =
     (let (err, s) = guarded res (guarded rec (guarded mut (guarded sel start)))
      in (err, tick s))"

primrec evolve_loop :: "(retcode \<times> 's \<Rightarrow> retcode \<times> 's) \<Rightarrow> nat \<Rightarrow> retcode \<times> 's \<Rightarrow> retcode \<times> 's" where
  "evolve_loop body 0 cur = cur"
| "evolve_loop body (Suc left) cur =
     (if fst cur = OK then evolve_loop body left (body cur) else cur)"

definition evolve_with ::
  "('s \<Rightarrow> retcode \<times> 's) \<Rightarrow> ('s \<Rightarrow> retcode \<times> 's) \<Rightarrow> ('s \<Rightarrow> retcode \<times> 's) \<Rightarrow> ('s \<Rightarrow> retcode \<times> 's)
     \<Rightarrow> ('s \<Rightarrow> 's) \<Rightarrow> int \<Rightarrow> 's \<Rightarrow> retcode \<times> 's" where
  "evolve_with sel mut rec res tick gen s =
     evolve_loop (evolve_body sel mut rec res tick) (nat gen) (OK, s)"

definition count_generation :: "'r externals \<Rightarrow> 'r haploid_gt_dis \<Rightarrow> 'r haploid_gt_dis" where
  "count_generation ext st =
     (let st1 = st\<lparr>generation := generation st + 1\<rparr>
      in if generation st1 > HG_LONGTIMEGEN ext
         then st1\<lparr>generation := generation st1 - HG_LONGTIMEGEN ext,
                  long_time_generation := long_time_generation st1 + real_of_int (HG_LONGTIMEGEN ext)\<rparr>
         else st1)"

text \<open>
  The call \<^verbatim>\<open>resample()\<close> of the driver, with the default argument. While the values
  are real numbers it is \<open>resample\<close>; beyond them it is the parameter
  \<open>resample_beyond_reals\<close>, about which nothing is assumed.
\<close>

definition resample_default :: "'r externals \<Rightarrow> 'r haploid_gt_dis \<Rightarrow> retcode \<times> 'r haploid_gt_dis" where
  "resample_default ext st =
     (case resample ext (resample_default_n ext) st of
        Some result \<Rightarrow> result
      | None \<Rightarrow> resample_beyond_reals ext st)"

definition evolve :: "'r externals \<Rightarrow> int \<Rightarrow> 'r haploid_gt_dis \<Rightarrow> retcode \<times> 'r haploid_gt_dis" where
  "evolve ext gen st =
     evolve_with select mutate (recombine ext) (resample_default ext) (count_generation ext) gen st"

text \<open>
  Operators that keep a record of their calls: each call appends the name of the
  operator and the code it returned.
\<close>

datatype operator_name = Select | Mutate | Recombine | Resample

definition logged ::
  "operator_name \<Rightarrow> ('s \<Rightarrow> retcode \<times> 's)
     \<Rightarrow> 's \<times> (operator_name \<times> retcode) list \<Rightarrow> retcode \<times> 's \<times> (operator_name \<times> retcode) list" where
  "logged name operator =
     (\<lambda>(s, calls). let (err, s') = operator s in (err, s', calls @ [(name, err)]))"

definition evolve_logged ::
  "('s \<Rightarrow> retcode \<times> 's) \<Rightarrow> ('s \<Rightarrow> retcode \<times> 's) \<Rightarrow> ('s \<Rightarrow> retcode \<times> 's) \<Rightarrow> ('s \<Rightarrow> retcode \<times> 's)
     \<Rightarrow> ('s \<Rightarrow> 's) \<Rightarrow> int \<Rightarrow> 's \<Rightarrow> retcode \<times> 's \<times> (operator_name \<times> retcode) list" where
  "evolve_logged sel mut rec res tick gen s =
     evolve_with (logged Select sel) (logged Mutate mut) (logged Recombine rec) (logged Resample res)
       (\<lambda>(s, calls). (tick s, calls)) gen (s, [])"

section \<open>A one-locus engine for checking statements on concrete inputs\<close>

definition example_cube :: "nat \<Rightarrow> (nat \<Rightarrow> real) \<Rightarrow> hypercube" where
  "example_cube L f = \<lparr>dimension = L, state = HC_FUNC, func = f, coeff = (\<lambda>i. 0)\<rparr>"

definition example_engine :: "(nat \<Rightarrow> real) \<Rightarrow> (nat \<Rightarrow> real) \<Rightarrow> (nat \<Rightarrow> nat \<Rightarrow> real) \<Rightarrow> nat haploid_gt_dis" where
  "example_engine p f rates =
     \<lparr>mem = True, free_recombination = True, outcrossing_rate = 1 / 2, generation = 0,
      long_time_generation = 0, circular = False, number_of_loci = 1, population_size = 1000,
      fitness = example_cube 1 f, population = example_cube 1 p,
      mutants = example_cube 1 (\<lambda>i. 0), recombinants = example_cube 1 (\<lambda>i. 0),
      mutation_rates = rates, recombination_patters = (\<lambda>s r. 0), rng = 0\<rparr>"

section \<open>The transform of the hypercube, from its description\<close>

text \<open>
  Modelled from the spec: the transform pair of the hypercube, a
  Walsh-Hadamard-style transform between genotype space and locus-subset space.
  \<open>walsh L i g\<close> is the product, over the loci \<open>k\<close> of the subset \<open>i\<close>, of the
  spin of genotype \<open>g\<close> at \<open>k\<close>: \<open>1\<close> when the bit is set and \<open>-1\<close> when it is clear.
  The coefficient of the empty subset is the mean of the function, as the
  source's \<^verbatim>\<open>recombinants.coeff[0]=1.0/(1<<number_of_loci)\<close> for a normalized
  distribution asks. The source keeps reading \<^verbatim>\<open>population.func\<close> after
  \<^verbatim>\<open>population.fft_func_to_coeff()\<close>, so the forward transform fills \<^verbatim>\<open>coeff\<close> and
  leaves \<^verbatim>\<open>func\<close> as it is, and the backward transform does the converse.
\<close>

definition walsh :: "nat \<Rightarrow> nat \<Rightarrow> nat \<Rightarrow> real" where
  "walsh L i g = (\<Prod>k<L. if bit i k \<and> \<not> bit g k then - 1 else 1)"

definition walsh_func_to_coeff :: "hypercube \<Rightarrow> hypercube" where
  "walsh_func_to_coeff h =
     h\<lparr>state := HC_COEFF,
       coeff := (\<lambda>i. if i < 2 ^ dimension h
                     then (\<Sum>g<2 ^ dimension h. func h g * walsh (dimension h) i g) / 2 ^ dimension h
                     else coeff h i)\<rparr>"

definition walsh_coeff_to_func :: "hypercube \<Rightarrow> hypercube" where
  "walsh_coeff_to_func h =
     h\<lparr>state := HC_FUNC,
       func := (\<lambda>g. if g < 2 ^ dimension h
                    then (\<Sum>i<2 ^ dimension h. coeff h i * walsh (dimension h) i g)
                    else func h g)\<rparr>"

text \<open>
  Example values for what the engine takes from outside: a generator that
  counts its draws, a Poisson draw that is always 2, a Gaussian draw that is
  always \<open>1/100\<close>.
\<close>

definition example_externals :: "nat externals" where
  "example_externals =
     \<lparr>HG_CONTINUOUS = 10000, HG_NOTHING = 1 / 10 ^ 15, HG_LONGTIMEGEN = 1000000,
      resample_default_n = 0,
      gsl_ran_poisson = (\<lambda>g mu. (2, Suc g)),
      gsl_ran_gaussian = (\<lambda>g sigma. (1 / 100, Suc g)),
      fft_func_to_coeff = walsh_func_to_coeff,
      fft_coeff_to_func = walsh_coeff_to_func,
      resample_beyond_reals = (\<lambda>st. (OK, st))\<rparr>"

text \<open>
  Modelled from the spec: the parameters of the engine with the two transforms
  of the hypercube as the specification describes them, the Walsh pair above.
\<close>

definition spec_transforms :: "'r externals \<Rightarrow> 'r externals" where
  "spec_transforms ext =
     ext\<lparr>fft_func_to_coeff := walsh_func_to_coeff, fft_coeff_to_func := walsh_coeff_to_func\<rparr>"

text \<open>
  What a record of calls looks like when a run over \<open>k\<close> generations stops at the
  first code that is not 0 and returns \<open>err\<close>.
\<close>

definition pipeline :: "operator_name list" where
  "pipeline = [Select, Mutate, Recombine, Resample]"

definition first_error_trace :: "nat \<Rightarrow> retcode \<Rightarrow> (operator_name \<times> retcode) list \<Rightarrow> bool" where
  "first_error_trace k err calls \<longleftrightarrow>
     map fst calls = take (length calls) (concat (replicate k pipeline))
     \<and> (\<forall>c \<in> set (butlast calls). snd c = OK)
     \<and> (err \<noteq> OK \<longrightarrow> calls \<noteq> [] \<and> snd (last calls) = err)
     \<and> (err = OK \<longrightarrow> length calls = 4 * k \<and> (\<forall>c \<in> set calls. snd c = OK))"

section \<open>Partitions of a locus subset\<close>

text \<open>
  To state what the recombination loops sum over: \<open>loci i\<close> is the set of loci of
  the subset with index \<open>i\<close>, and \<open>mask_of M\<close> is the index of the subset with the
  loci \<open>M\<close>. A partition of the subset \<open>i\<close> between mother and father is a choice
  of the maternal loci \<open>M\<close> among \<open>loci i\<close>; the paternal loci are the rest.
\<close>

definition loci :: "nat \<Rightarrow> nat set" where
  "loci i = {k. bit i k}"

definition mask_of :: "nat set \<Rightarrow> nat" where
  "mask_of M = (\<Sum>k\<in>M. 2 ^ k)"

section \<open>What marginalization writes\<close>

text \<open>
  To state what \<^verbatim>\<open>set_recombination_rates\<close> leaves in the table: \<open>higher_pattern\<close> is
  the source's \<^verbatim>\<open>higher_order_rec_pattern\<close>, \<open>marginal_row rp s m k\<close> the row that the
  loop over \<^verbatim>\<open>rec_pattern\<close> writes for the subset \<open>s\<close> of order \<open>k\<close> from the row of
  \<open>s + 2 ^ m\<close>, \<open>marginal_table\<close> the table after one pass over the subsets of order
  \<open>k\<close>, and \<open>marginalized L rp s\<close> says that the row of \<open>s\<close> is the marginal of the row
  of \<open>s\<close> with its lowest absent locus added.
\<close>

definition higher_pattern :: "nat \<Rightarrow> nat \<Rightarrow> nat \<Rightarrow> nat" where
  "higher_pattern marg_locus set_size rec_pattern =
     (rec_pattern AND (2 ^ marg_locus - 1))
     + push_bit 1 (rec_pattern AND (2 ^ set_size - 2 ^ marg_locus))"

definition marginal_row :: "(nat \<Rightarrow> nat \<Rightarrow> real) \<Rightarrow> nat \<Rightarrow> nat \<Rightarrow> nat \<Rightarrow> nat \<Rightarrow> real" where
  "marginal_row rp s m k =
     (\<lambda>r. if r < 2 ^ k
          then rp (s + 2 ^ m) (higher_pattern m k r) + rp (s + 2 ^ m) (higher_pattern m k r + 2 ^ m)
          else rp s r)"

definition marginal_table :: "nat \<Rightarrow> nat \<Rightarrow> (nat \<Rightarrow> nat \<Rightarrow> real) \<Rightarrow> nat \<Rightarrow> nat \<Rightarrow> real" where
  "marginal_table L k rp s =
     (if order_tab s = k
      then (case find (\<lambda>locus. s AND 2 ^ locus = 0) [0..<L] of
              None \<Rightarrow> rp s
            | Some m \<Rightarrow> marginal_row rp s m k)
      else rp s)"

definition marginalized :: "nat \<Rightarrow> (nat \<Rightarrow> nat \<Rightarrow> real) \<Rightarrow> nat \<Rightarrow> bool" where
  "marginalized L rp s \<longleftrightarrow>
     (\<forall>m. m < L \<and> \<not> bit s m \<and> (\<forall>k<m. bit s k) \<longrightarrow> rp s = marginal_row rp s m (order_tab s))"

section \<open>Total mass\<close>

text \<open>The sum of the \<^verbatim>\<open>func\<close> values of the population over all genotypes.\<close>

definition total_mass :: "'r haploid_gt_dis \<Rightarrow> real" where
  "total_mass st = (\<Sum>i<2 ^ number_of_loci st. func (population st) i)"

section \<open>Loops over an index range\<close>

lemma fold_upd_indep:
  "fold (\<lambda>i m. m(i := h i)) [0..<n] m0 = (\<lambda>i. if i < n then h i else m0 i)"
  by (induction n) (auto simp: fun_eq_iff)

lemma fold_upd_pointwise:
  "fold (\<lambda>i p. p(i := g i (p i))) [0..<n] p0 = (\<lambda>i. if i < n then g i (p0 i) else p0 i)"
  by (induction n) (auto simp: fun_eq_iff)

lemma fold_accum_at:
  "fold (\<lambda>l m. m(i := m i + g l)) [0..<n] m0 = m0(i := m0 i + (\<Sum>l<n. g l))"
  by (induction n) (auto simp: fun_eq_iff add.assoc)

lemma mutate_fill_eq:
  "mutate_fill rates p L m0 =
     (\<lambda>i. if i < 2 ^ L then (\<Sum>l<L. mutate_locus rates p i l) else m0 i)"
proof -
  have "mutate_fill rates p L m0 =
      fold (\<lambda>i m. m(i := (\<Sum>l<L. mutate_locus rates p i l))) [0..<2 ^ L] m0"
    unfolding mutate_fill_def by (simp add: fold_accum_at)
  then show ?thesis by (simp add: fold_upd_indep)
qed

lemma mutate_add_eq:
  "mutate_add m L p0 = (\<lambda>i. if i < 2 ^ L then p0 i + m i else p0 i)"
  unfolding mutate_add_def by (rule fold_upd_pointwise [where g = "\<lambda>i x. x + m i"])

lemma select_loop_eq:
  "select_loop fit n (p0, a) =
     ((\<lambda>i. if i < n then p0 i * exp (fit i) else p0 i), a + (\<Sum>i<n. p0 i * exp (fit i)))"
  unfolding select_loop_def by (induction n) (auto simp: fun_eq_iff Let_def)

section \<open>The example engine\<close>

lemma example_engine_fields:
  "number_of_loci (example_engine p f rates) = 1"
  "func (population (example_engine p f rates)) = p"
  "func (fitness (example_engine p f rates)) = f"
  "dimension (population (example_engine p f rates)) = 1"
  "mutation_rates (example_engine p f rates) = rates"
  by (simp_all add: example_engine_def example_cube_def)

lemma sum_lessThan_2: "(\<Sum>i<2. g i) = g 0 + (g (Suc 0) :: real)"
  by (simp add: numeral_2_eq_2)

lemma sum_lessThan_1: "(\<Sum>i<(1::nat). g i) = (g 0 :: real)"
  by simp

section \<open>Claims on mutation and selection\<close>

text \<open>
  C5. \<^verbatim>\<open>mutate()\<close> returns 0. For every genotype \<open>i\<close> it sets \<^verbatim>\<open>mutants.func[i]\<close> to
  the sum over all loci \<open>l\<close> of the flow: forward rate times the population of
  \<open>i\<close> with \<open>l\<close> cleared minus backward rate times the population of \<open>i\<close> when
  \<open>l\<close> is set in \<open>i\<close>; backward rate times the population of \<open>i\<close> with \<open>l\<close> set
  minus forward rate times the population of \<open>i\<close> when \<open>l\<close> is clear. Then it
  adds \<^verbatim>\<open>mutants.func[i]\<close> to \<^verbatim>\<open>population.func[i]\<close>. With all rates zero the
  population is left as it was.
\<close>

theorem mutate_flow_sum:
  fixes st :: "'r haploid_gt_dis"
  defines "L \<equiv> number_of_loci st"
    and "fwd \<equiv> mutation_rates st 0"
    and "back \<equiv> mutation_rates st 1"
    and "p \<equiv> func (population st)"
    and "st' \<equiv> snd (mutate st)"
  defines "flow \<equiv> \<lambda>i l. if bit i l then fwd l * p (i - 2 ^ l) - back l * p i
                               else back l * p (i + 2 ^ l) - fwd l * p i"
  shows "fst (mutate st) = OK
    \<and> (\<forall>i < 2 ^ L. func (mutants st') i = (\<Sum>l<L. flow i l)
                 \<and> func (population st') i = p i + func (mutants st') i)
    \<and> ((\<forall>l<L. fwd l = 0 \<and> back l = 0) \<longrightarrow> func (population st') = p)"
proof -
  have loc: "mutate_locus (mutation_rates st) (func (population st)) i l = flow i l" for i l
    by (simp add: mutate_locus_def flow_def fwd_def back_def p_def and_exp_eq_0_iff_not_bit)
  have m: "func (mutants st') = (\<lambda>i. if i < 2 ^ L then (\<Sum>l<L. flow i l) else func (mutants st) i)"
    by (simp add: st'_def mutate_def Let_def set_state_def mutate_fill_eq loc L_def p_def cong: if_cong)
  have q: "func (population st') = (\<lambda>i. if i < 2 ^ L then p i + func (mutants st') i else p i)"
    by (simp add: st'_def mutate_def Let_def set_state_def mutate_add_eq L_def p_def cong: if_cong)
  have z: "func (population st') = p" if "\<forall>l<L. fwd l = 0 \<and> back l = 0"
  proof -
    have "flow i l = 0" if "l < L" for i l
      using \<open>\<forall>l<L. fwd l = 0 \<and> back l = 0\<close> that by (simp add: flow_def)
    then have "(\<Sum>l<L. flow i l) = 0" for i by simp
    then show ?thesis by (simp add: q m fun_eq_iff)
  qed
  have "fst (mutate st) = OK" by (simp add: mutate_def Let_def)
  then show ?thesis using m q z by simp
qed

theorem mutate_flow_sum_witness:
  "func (population (snd (mutate (example_engine (\<lambda>i. if i = 0 then 1 / 4 else 3 / 4) (\<lambda>i. 0)
         (\<lambda>fb l. if fb = 0 then 1 / 10 else 1 / 5))))) 1 = 5 / 8
   \<and> func (population (snd (mutate (example_engine (\<lambda>i. if i = 0 then 1 / 4 else 3 / 4) (\<lambda>i. 0) (\<lambda>fb l. 0)))))
       = (\<lambda>i. if i = 0 then 1 / 4 else 3 / 4)"
proof -
  let ?p = "\<lambda>i::nat. if i = 0 then 1 / 4 else 3 / 4 :: real"
  let ?A = "example_engine ?p (\<lambda>i. 0) (\<lambda>fb l. if fb = 0 then 1 / 10 else 1 / 5)"
  let ?B = "example_engine ?p (\<lambda>i. 0) (\<lambda>fb l. 0)"
  note A = mutate_flow_sum [of ?A, unfolded example_engine_fields sum_lessThan_1]
  note B = mutate_flow_sum [of ?B, unfolded example_engine_fields sum_lessThan_1]
  from A have a: "func (population (snd (mutate ?A))) 1 = 5 / 8"
    by (simp add: bit_Suc_0_iff)
  from B have b: "func (population (snd (mutate ?B))) = ?p"
    by simp
  from a b show ?thesis by simp
qed

text \<open>
  C6. When the normalization sum, the sum over all genotypes \<open>j\<close> of
  \<^verbatim>\<open>population[j]*exp(fitness[j])\<close>, is not zero, \<^verbatim>\<open>select()\<close> returns 0, replaces each
  frequency \<^verbatim>\<open>population[i]\<close> by \<^verbatim>\<open>population[i]*exp(fitness[i])\<close> divided by that sum,
  and the new frequencies sum to 1.
\<close>

theorem select_reweights:
  fixes st :: "'r haploid_gt_dis"
  defines "L \<equiv> number_of_loci st"
    and "p \<equiv> func (population st)"
    and "f \<equiv> func (fitness st)"
  defines "nrm \<equiv> (\<Sum>j<2 ^ L. p j * exp (f j))"
  assumes dim: "dimension (population st) = number_of_loci st"
    and nz: "nrm \<noteq> 0"
  shows "fst (select st) = OK
    \<and> (\<forall>i<2 ^ L. func (population (snd (select st))) i = p i * exp (f i) / nrm)
    \<and> (\<Sum>i<2 ^ L. func (population (snd (select st))) i) = 1"
proof -
  have q: "func (population (snd (select st))) =
      (\<lambda>i. if i < 2 ^ L then p i * exp (f i) * (1 / nrm) else p i)"
    using dim
    by (simp add: select_def select_loop_eq set_state_def scale_def Let_def
        L_def p_def f_def nrm_def cong: if_cong)
  have "(\<Sum>i<2 ^ L. func (population (snd (select st))) i) = (\<Sum>i<2 ^ L. p i * exp (f i) / nrm)"
    by (rule sum.cong) (simp_all add: q)
  also have "\<dots> = nrm / nrm"
    unfolding nrm_def by (rule sum_divide_distrib [symmetric])
  finally have s: "(\<Sum>i<2 ^ L. func (population (snd (select st))) i) = 1"
    using nz by simp
  have "fst (select st) = OK"
    by (simp add: select_def Let_def split: prod.splits)
  then show ?thesis using q s by simp
qed

theorem select_reweights_witness:
  "fst (select (example_engine (\<lambda>i. if i = 0 then 1 / 4 else 3 / 4) (\<lambda>i. if i = 0 then 0 else ln 2) (\<lambda>fb l. 0))) = OK
   \<and> func (population (snd (select (example_engine (\<lambda>i. if i = 0 then 1 / 4 else 3 / 4)
         (\<lambda>i. if i = 0 then 0 else ln 2) (\<lambda>fb l. 0))))) 1 = 6 / 7"
  using select_reweights [of "example_engine (\<lambda>i. if i = 0 then 1 / 4 else 3 / 4) (\<lambda>i. if i = 0 then 0 else ln 2) (\<lambda>fb l. 0)"]
  by (simp add: example_engine_fields sum_lessThan_2)

section \<open>Resampling: what the loop computes\<close>

lemma example_engine_more:
  "population_size (example_engine p f rates) = 1000"
  "rng (example_engine p f rates) = 0"
  by (simp_all add: example_engine_def)

lemma resample_genotype_step:
  "resample_genotype ext N thr i (p, a, g) =
     (if p i < thr
      then Some (p(i := real (fst (gsl_ran_poisson ext g (N * p i))) / N),
                 a + real (fst (gsl_ran_poisson ext g (N * p i))) / N,
                 snd (gsl_ran_poisson ext g (N * p i)))
      else if p i / N < 0 then None
      else Some (p(i := p i + fst (gsl_ran_gaussian ext g (sqrt (p i / N)))),
                 a + (p i + fst (gsl_ran_gaussian ext g (sqrt (p i / N)))),
                 snd (gsl_ran_gaussian ext g (sqrt (p i / N)))))"
  by (simp add: resample_genotype_def Let_def case_prod_beta)

lemma resample_fold_eq:
  fixes ext :: "'r externals"
  defines "q \<equiv> \<lambda>N p g0 i.
      if p i < HG_CONTINUOUS ext / N
      then real (fst (gsl_ran_poisson ext (rng_at ext N p g0 i) (N * p i))) / N
      else p i + fst (gsl_ran_gaussian ext (rng_at ext N p g0 i) (sqrt (p i / N)))"
  shows "fold (\<lambda>i acc. Option.bind acc (resample_genotype ext N (HG_CONTINUOUS ext / N) i)) [0..<n]
           (Some (p, a, g0)) =
     (if \<exists>i<n. \<not> p i < HG_CONTINUOUS ext / N \<and> p i / N < 0 then None
      else Some ((\<lambda>i. if i < n then q N p g0 i else p i), a + (\<Sum>i<n. q N p g0 i),
                 rng_at ext N p g0 n))"
proof (induction n)
  case 0
  show ?case by simp
next
  case (Suc n)
  let ?F = "\<lambda>i acc. Option.bind acc (resample_genotype ext N (HG_CONTINUOUS ext / N) i)"
  let ?bad = "\<lambda>i. \<not> p i < HG_CONTINUOUS ext / N \<and> p i / N < 0"
  have step: "fold ?F [0..<Suc n] (Some (p, a, g0)) = ?F n (fold ?F [0..<n] (Some (p, a, g0)))"
    by simp
  show ?case
  proof (cases "\<exists>i<n. ?bad i")
    case True
    then have "\<exists>i<Suc n. ?bad i" using less_Suc_eq by blast
    with True show ?thesis unfolding step by (simp only: Suc) simp
  next
    case False
    have s: "(\<exists>i<Suc n. ?bad i) \<longleftrightarrow> ?bad n"
      using False less_Suc_eq by auto
    have "fold ?F [0..<Suc n] (Some (p, a, g0))
        = resample_genotype ext N (HG_CONTINUOUS ext / N) n
            ((\<lambda>i. if i < n then q N p g0 i else p i), a + (\<Sum>i<n. q N p g0 i), rng_at ext N p g0 n)"
      unfolding step using False by (simp only: Suc) simp
    also have "\<dots> = (if ?bad n then None
        else Some ((\<lambda>i. if i < Suc n then q N p g0 i else p i), a + (\<Sum>i<Suc n. q N p g0 i),
                   rng_at ext N p g0 (Suc n)))"
      by (simp add: resample_genotype_step q_def fun_eq_iff less_Suc_eq)
    finally show ?thesis by (simp only: s)
  qed
qed

lemma resample_with_eq:
  fixes ext :: "'r externals" and st :: "'r haploid_gt_dis"
  defines "p \<equiv> func (population st)" and "L \<equiv> number_of_loci st"
  defines "q \<equiv> \<lambda>N i.
      if p i < HG_CONTINUOUS ext / N
      then real (fst (gsl_ran_poisson ext (rng_at ext N p (rng st) i) (N * p i))) / N
      else p i + fst (gsl_ran_gaussian ext (rng_at ext N p (rng st) i) (sqrt (p i / N)))"
  assumes dim: "dimension (population st) = number_of_loci st"
  shows "resample_with ext N st =
     (if N = 0 \<or> (\<exists>i<2 ^ L. \<not> p i < HG_CONTINUOUS ext / N \<and> p i / N < 0) then None
      else if (\<Sum>i<2 ^ L. q N i) < HG_NOTHING ext
      then Some (HG_EXTINCT,
            st\<lparr>population := (population st)\<lparr>state := HC_FUNC,
                                  func := (\<lambda>i. if i < 2 ^ L then q N i else p i)\<rparr>,
               rng := rng_at ext N p (rng st) (2 ^ L)\<rparr>)
      else if (\<Sum>i<2 ^ L. q N i) = 0 then None
      else Some (OK,
            st\<lparr>population := (population st)\<lparr>state := HC_FUNC,
                                  func := (\<lambda>i. if i < 2 ^ L then q N i * (1 / (\<Sum>i<2 ^ L. q N i)) else p i)\<rparr>,
               rng := rng_at ext N p (rng st) (2 ^ L)\<rparr>))"
proof (cases "N = 0 \<or> (\<exists>i<2 ^ L. \<not> p i < HG_CONTINUOUS ext / N \<and> p i / N < 0)")
  case True
  then show ?thesis
    unfolding p_def L_def
    by (auto simp: resample_with_def set_state_def resample_fold_eq Let_def)
next
  case False
  then have nz: "N \<noteq> 0"
    and ok: "\<not> (\<exists>i<2 ^ number_of_loci st.
        \<not> func (population st) i < HG_CONTINUOUS ext / N \<and> func (population st) i / N < 0)"
    unfolding p_def L_def by blast+
  have l: "fold (\<lambda>i acc. Option.bind acc (resample_genotype ext N (HG_CONTINUOUS ext / N) i))
        [0..<2 ^ number_of_loci st] (Some (func (population st), 0, rng st))
      = Some ((\<lambda>i. if i < 2 ^ L then q N i else p i), (\<Sum>i<2 ^ L. q N i),
              rng_at ext N p (rng st) (2 ^ L))"
    unfolding resample_fold_eq using ok by (simp add: p_def L_def q_def cong: if_cong)
  from False have F: "(N = 0 \<or> (\<exists>i<2 ^ L. \<not> p i < HG_CONTINUOUS ext / N \<and> p i / N < 0)) = False"
    by simp
  show ?thesis
    unfolding F using nz dim
    by (simp add: resample_with_def set_state_def l scale_def Let_def L_def cong: if_cong)
qed

lemma resample_in_reals:
  fixes p :: "nat \<Rightarrow> real"
  assumes "0 < N" and "0 \<le> C"
  shows "\<not> (\<exists>i<n. \<not> p i < C / N \<and> p i / N < 0)"
proof
  assume "\<exists>i<n. \<not> p i < C / N \<and> p i / N < 0"
  then obtain i where a: "\<not> p i < C / N" and b: "p i / N < 0" by blast
  from assms have "0 \<le> C / N" by simp
  with a have "0 \<le> p i" by simp
  with assms(1) have "0 \<le> p i / N" by simp
  with b show False by simp
qed

text \<open>
  C3, as the code has it. Let \<open>N\<close> be the target size that \<^verbatim>\<open>resample(n)\<close> works with,
  \<open>n\<close> when \<open>n\<close> is at least 1 and the stored \<^verbatim>\<open>population_size\<close> otherwise, and let \<open>N\<close>
  be positive. Let \<open>q i\<close> be the value that the loop writes for genotype \<open>i\<close>: when
  \<^verbatim>\<open>population[i]\<close> is below \<^verbatim>\<open>HG_CONTINUOUS/N\<close>, a Poisson draw with mean \<open>N\<close> times
  \<^verbatim>\<open>population[i]\<close>, divided by \<open>N\<close>; otherwise \<^verbatim>\<open>population[i]\<close> plus a Gaussian draw
  with standard deviation \<open>sqrt (population[i] / N)\<close>. Each \<open>q i\<close> depends on the old
  value of genotype \<open>i\<close> and on the generator only. Then \<^verbatim>\<open>resample\<close> stays within the
  real numbers; it returns \<^verbatim>\<open>HG_EXTINCT\<close> exactly when the sum of the \<open>q i\<close> is below
  \<^verbatim>\<open>HG_NOTHING\<close>, and then the population holds the \<open>q i\<close> without rescaling;
  otherwise it returns 0 and the population holds the \<open>q i\<close> divided by their sum,
  which sum to 1. The cutoff \<^verbatim>\<open>HG_CONTINUOUS\<close> is not negative and the epsilon
  \<^verbatim>\<open>HG_NOTHING\<close> is positive.
\<close>


theorem resample_draws:
  fixes ext :: "'r externals" and st :: "'r haploid_gt_dis" and n :: real
  defines "N \<equiv> (if n < 1 then population_size st else n)"
    and "p \<equiv> func (population st)"
    and "L \<equiv> number_of_loci st"
  defines "q \<equiv> \<lambda>i.
      if p i < HG_CONTINUOUS ext / N
      then real (fst (gsl_ran_poisson ext (rng_at ext N p (rng st) i) (N * p i))) / N
      else p i + fst (gsl_ran_gaussian ext (rng_at ext N p (rng st) i) (sqrt (p i / N)))"
  defines "mass \<equiv> (\<Sum>i<2 ^ L. q i)"
  assumes dim: "dimension (population st) = number_of_loci st"
    and size: "0 < N"
    and cutoff: "0 \<le> HG_CONTINUOUS ext"
    and eps: "0 < HG_NOTHING ext"
  shows "\<exists>code st'. resample ext n st = Some (code, st')
    \<and> (code = HG_EXTINCT \<longleftrightarrow> mass < HG_NOTHING ext)
    \<and> (mass < HG_NOTHING ext \<longrightarrow> (\<forall>i<2 ^ L. func (population st') i = q i))
    \<and> (\<not> mass < HG_NOTHING ext \<longrightarrow>
         code = OK
         \<and> (\<forall>i<2 ^ L. func (population st') i = q i / mass)
         \<and> (\<Sum>i<2 ^ L. func (population st') i) = 1)
    \<and> rng st' = rng_at ext N p (rng st) (2 ^ L)"
proof -
  have r: "resample ext n st = resample_with ext N st"
    by (simp add: resample_def N_def)
  have reals: "\<not> (N = 0 \<or> (\<exists>i<2 ^ L. \<not> p i < HG_CONTINUOUS ext / N \<and> p i / N < 0))"
    using size resample_in_reals [OF size cutoff] by simp
  have w: "resample_with ext N st =
     (if mass < HG_NOTHING ext
      then Some (HG_EXTINCT,
            st\<lparr>population := (population st)\<lparr>state := HC_FUNC,
                                  func := (\<lambda>i. if i < 2 ^ L then q i else p i)\<rparr>,
               rng := rng_at ext N p (rng st) (2 ^ L)\<rparr>)
      else if mass = 0 then None
      else Some (OK,
            st\<lparr>population := (population st)\<lparr>state := HC_FUNC,
                                  func := (\<lambda>i. if i < 2 ^ L then q i * (1 / mass) else p i)\<rparr>,
               rng := rng_at ext N p (rng st) (2 ^ L)\<rparr>))"
    using reals unfolding mass_def q_def p_def L_def
    by (simp only: resample_with_eq [OF dim] if_False)
  show ?thesis
  proof (cases "mass < HG_NOTHING ext")
    case True
    then show ?thesis by (simp add: r w)
  next
    case False
    with eps have nz: "mass \<noteq> 0" by simp
    let ?st' = "st\<lparr>population := (population st)\<lparr>state := HC_FUNC,
                                  func := (\<lambda>i. if i < 2 ^ L then q i * (1 / mass) else p i)\<rparr>,
               rng := rng_at ext N p (rng st) (2 ^ L)\<rparr>"
    have s: "resample ext n st = Some (OK, ?st')"
      using False nz by (simp add: r w)
    have "(\<Sum>i<2 ^ L. func (population ?st') i) = (\<Sum>i<2 ^ L. q i / mass)"
      by (rule sum.cong) simp_all
    also have "\<dots> = mass / mass"
      unfolding mass_def by (rule sum_divide_distrib [symmetric])
    finally have "(\<Sum>i<2 ^ L. func (population ?st') i) = 1"
      using nz by simp
    then show ?thesis using False s by simp
  qed
qed

theorem resample_draws_witness:
  "map_option fst (resample example_externals 0
       (example_engine (\<lambda>i. if i = 0 then 1 / 4 else 3 / 4) (\<lambda>i. 0) (\<lambda>fb l. 0))) = Some OK
   \<and> map_option (\<lambda>r. func (population (snd r)) 1) (resample example_externals 0
       (example_engine (\<lambda>i. if i = 0 then 1 / 4 else 3 / 4) (\<lambda>i. 0) (\<lambda>fb l. 0))) = Some (1 / 2)
   \<and> map_option fst (resample (example_externals\<lparr>gsl_ran_poisson := (\<lambda>g mu. (0, Suc g))\<rparr>) 0
       (example_engine (\<lambda>i. if i = 0 then 1 / 4 else 3 / 4) (\<lambda>i. 0) (\<lambda>fb l. 0))) = Some HG_EXTINCT"
proof -
  let ?E = "example_engine (\<lambda>i. if i = 0 then 1 / 4 else 3 / 4) (\<lambda>i. 0) (\<lambda>fb l. 0)"
  let ?X = "example_externals\<lparr>gsl_ran_poisson := (\<lambda>g mu. (0, Suc g))\<rparr>"
  note A = resample_draws [of ?E 0 example_externals,
      unfolded example_engine_fields example_engine_more sum_lessThan_2 power_one_right]
  note B = resample_draws [of ?E 0 ?X,
      unfolded example_engine_fields example_engine_more sum_lessThan_2 power_one_right]
  have a: "map_option fst (resample example_externals 0 ?E) = Some OK
      \<and> map_option (\<lambda>r. func (population (snd r)) 1) (resample example_externals 0 ?E) = Some (1 / 2)"
    using A by (auto simp: example_externals_def numeral_2_eq_2)
  have b: "map_option fst (resample ?X 0 ?E) = Some HG_EXTINCT"
    using B by (auto simp: example_externals_def numeral_2_eq_2)
  from a b show ?thesis by simp
qed

text \<open>
  C3, as stated, is for every population state and every target size. On the
  one-locus engine with the frequencies \<open>(1/4, 3/4)\<close> and the stored
  \<^verbatim>\<open>population_size\<close> 0, \<^verbatim>\<open>resample(0)\<close> takes the target size 0. The threshold
  \<^verbatim>\<open>HG_CONTINUOUS/pop_size\<close> is a division by zero, and so is the quotient of each
  Poisson draw by \<^verbatim>\<open>pop_size\<close>: the source does not return \<^verbatim>\<open>HG_EXTINCT\<close>, it returns 0
  with values that are no numbers, and the population is not rescaled to the
  total mass 1. Here the result is \<open>None\<close>.
\<close>


theorem resample_without_target_size:
  "resample example_externals 0
     ((example_engine (\<lambda>i. if i = 0 then 1 / 4 else 3 / 4) (\<lambda>i. 0) (\<lambda>fb l. 0))\<lparr>population_size := 0\<rparr>)
   = None"
  by (simp add: resample_def resample_with_def)

text \<open>
  C10. \<open>resampled_to N\<close> says that \<^verbatim>\<open>resample(n)\<close> has worked with the target size \<open>N\<close>:
  with \<open>q N i\<close> the value drawn for genotype \<open>i\<close>, for which \<open>N\<close> is the divisor of
  the threshold \<^verbatim>\<open>HG_CONTINUOUS/N\<close>, the factor of the Poisson mean, the divisor of
  the Poisson draw and the divisor under the square root of the Gaussian
  standard deviation, the code returned is \<^verbatim>\<open>HG_EXTINCT\<close> exactly when the \<open>q N i\<close>
  sum to less than \<^verbatim>\<open>HG_NOTHING\<close>, the population holds the \<open>q N i\<close> then and the
  \<open>q N i\<close> divided by their sum otherwise, and the generator is the one left by
  these draws; the result is \<open>None\<close> when \<open>N\<close> is 0, and it is not \<open>None\<close> when \<open>N\<close> is
  positive, the cutoff not negative and the epsilon positive. For every
  argument \<open>n\<close> below 1, zero and negative values included, \<^verbatim>\<open>resample(n)\<close> has
  worked with the stored \<^verbatim>\<open>population_size\<close>; for every \<open>n\<close> of at least 1 it has
  worked with \<open>n\<close> itself.
\<close>


theorem resample_target_size:
  fixes ext :: "'r externals" and st :: "'r haploid_gt_dis" and n :: real
  defines "p \<equiv> func (population st)"
    and "L \<equiv> number_of_loci st"
  defines "q \<equiv> \<lambda>N i.
      if p i < HG_CONTINUOUS ext / N
      then real (fst (gsl_ran_poisson ext (rng_at ext N p (rng st) i) (N * p i))) / N
      else p i + fst (gsl_ran_gaussian ext (rng_at ext N p (rng st) i) (sqrt (p i / N)))"
  defines "resampled_to \<equiv> \<lambda>N.
      (N = 0 \<longrightarrow> resample ext n st = None)
      \<and> (0 < N \<and> 0 \<le> HG_CONTINUOUS ext \<and> 0 < HG_NOTHING ext \<longrightarrow> resample ext n st \<noteq> None)
      \<and> (\<forall>code st'. resample ext n st = Some (code, st') \<longrightarrow>
            (code = HG_EXTINCT \<longleftrightarrow> (\<Sum>j<2 ^ L. q N j) < HG_NOTHING ext)
            \<and> (\<forall>i<2 ^ L. func (population st') i
                  = (if code = HG_EXTINCT then q N i else q N i / (\<Sum>j<2 ^ L. q N j)))
            \<and> rng st' = rng_at ext N p (rng st) (2 ^ L))"
  assumes dim: "dimension (population st) = number_of_loci st"
  shows "(n < 1 \<longrightarrow> resampled_to (population_size st)) \<and> (1 \<le> n \<longrightarrow> resampled_to n)"
proof -
  have main: "resampled_to N" if r: "resample ext n st = resample_with ext N st" for N
  proof -
    let ?mass = "\<Sum>j<2 ^ L. q N j"
    let ?bad = "N = 0 \<or> (\<exists>i<2 ^ L. \<not> p i < HG_CONTINUOUS ext / N \<and> p i / N < 0)"
    have w: "resample ext n st =
       (if ?bad then None
        else if ?mass < HG_NOTHING ext
        then Some (HG_EXTINCT,
              st\<lparr>population := (population st)\<lparr>state := HC_FUNC,
                                    func := (\<lambda>i. if i < 2 ^ L then q N i else p i)\<rparr>,
                 rng := rng_at ext N p (rng st) (2 ^ L)\<rparr>)
        else if ?mass = 0 then None
        else Some (OK,
              st\<lparr>population := (population st)\<lparr>state := HC_FUNC,
                                    func := (\<lambda>i. if i < 2 ^ L then q N i * (1 / ?mass) else p i)\<rparr>,
                 rng := rng_at ext N p (rng st) (2 ^ L)\<rparr>))"
      unfolding r q_def p_def L_def by (rule resample_with_eq [OF dim])
    have a: "N = 0 \<longrightarrow> resample ext n st = None"
      by (simp add: w)
    have b: "0 < N \<and> 0 \<le> HG_CONTINUOUS ext \<and> 0 < HG_NOTHING ext \<longrightarrow> resample ext n st \<noteq> None"
    proof
      assume "0 < N \<and> 0 \<le> HG_CONTINUOUS ext \<and> 0 < HG_NOTHING ext"
      then have size: "0 < N" and cutoff: "0 \<le> HG_CONTINUOUS ext" and eps: "0 < HG_NOTHING ext"
        by simp_all
      have "\<not> ?bad" using size resample_in_reals [OF size cutoff] by simp
      moreover have "?mass \<noteq> 0" if "\<not> ?mass < HG_NOTHING ext"
        using that eps by simp
      ultimately show "resample ext n st \<noteq> None"
        by (simp add: w)
    qed
    have c: "(code = HG_EXTINCT \<longleftrightarrow> ?mass < HG_NOTHING ext)
        \<and> (\<forall>i<2 ^ L. func (population st') i = (if code = HG_EXTINCT then q N i else q N i / ?mass))
        \<and> rng st' = rng_at ext N p (rng st) (2 ^ L)"
      if s: "resample ext n st = Some (code, st')" for code st'
    proof (cases "?mass < HG_NOTHING ext")
      case True
      with s show ?thesis unfolding w by (auto split: if_splits)
    next
      case False
      with s show ?thesis unfolding w by (auto split: if_splits)
    qed
    from a b c show ?thesis unfolding resampled_to_def by blast
  qed
  show ?thesis
    by (auto intro!: main simp: resample_def)
qed

theorem resample_target_size_witness:
  "map_option (\<lambda>r. func (population (snd r)) 0) (resample example_externals 0
       (example_engine (\<lambda>i. if i = 0 then 1 / 4 else 3 / 4) (\<lambda>i. 0) (\<lambda>fb l. 0))) = Some (1 / 2)
   \<and> map_option (\<lambda>r. func (population (snd r)) 0) (resample example_externals 1000000
       (example_engine (\<lambda>i. if i = 0 then 1 / 4 else 3 / 4) (\<lambda>i. 0) (\<lambda>fb l. 0))) = Some (13 / 51)"
proof -
  let ?E = "example_engine (\<lambda>i. if i = 0 then 1 / 4 else 3 / 4) (\<lambda>i. 0) (\<lambda>fb l. 0)"
  note A = resample_target_size [where st = ?E and ext = example_externals and n = 0,
      unfolded example_engine_fields example_engine_more sum_lessThan_2 power_one_right]
  note B = resample_target_size [where st = ?E and ext = example_externals and n = 1000000,
      unfolded example_engine_fields example_engine_more sum_lessThan_2 power_one_right]
  have a: "map_option (\<lambda>r. func (population (snd r)) 0) (resample example_externals 0 ?E) = Some (1 / 2)"
    using A by (auto simp: example_externals_def numeral_2_eq_2)
  have b: "map_option (\<lambda>r. func (population (snd r)) 0) (resample example_externals 1000000 ?E)
      = Some (13 / 51)"
    using B by (auto simp: example_externals_def numeral_2_eq_2)
  from a b show ?thesis by simp
qed

section \<open>Setting the mutation rates before memory is allocated\<close>

text \<open>
  C9, as the code has it. On an engine whose \<^verbatim>\<open>mem\<close> is false every overload of
  \<^verbatim>\<open>set_mutation_rate\<close> returns \<^verbatim>\<open>HG_MEMERR\<close>, the memory error code, and leaves the
  engine, hence the table of mutation rates, as it was.
\<close>


theorem set_mutation_rate_without_memory:
  assumes "\<not> mem st"
  shows "set_mutation_rate m st = (HG_MEMERR, st)
    \<and> set_mutation_rate_fb mforward mbackward st = (HG_MEMERR, st)
    \<and> set_mutation_rate_loci ml st = (HG_MEMERR, st)
    \<and> set_mutation_rate_table mt st = (HG_MEMERR, st)"
  using assms
  by (simp add: set_mutation_rate_def set_mutation_rate_fb_def set_mutation_rate_loci_def
      set_mutation_rate_table_def)

theorem set_mutation_rate_without_memory_witness:
  "set_mutation_rate (1 / 100) ((example_engine (\<lambda>i. 1 / 2) (\<lambda>i. 0) (\<lambda>fb l. 0))\<lparr>mem := False\<rparr>)
     = (HG_MEMERR, (example_engine (\<lambda>i. 1 / 2) (\<lambda>i. 0) (\<lambda>fb l. 0))\<lparr>mem := False\<rparr>)
   \<and> mutation_rates (snd (set_mutation_rate_table (\<lambda>fb l. 1 / 100)
         ((example_engine (\<lambda>i. 1 / 2) (\<lambda>i. 0) (\<lambda>fb l. 0))\<lparr>mem := False\<rparr>))) = (\<lambda>fb l. 0)"
  using set_mutation_rate_without_memory
    [of "(example_engine (\<lambda>i. 1 / 2) (\<lambda>i. 0) (\<lambda>fb l. 0))\<lparr>mem := False\<rparr>" "1 / 100" 0 0 "\<lambda>l. 0" "\<lambda>fb l. 1 / 100"]
  by (simp add: example_engine_fields)

text \<open>
  C9, as stated, asks for the code \<^verbatim>\<open>HG_BADARG\<close>. On the one-locus example engine
  without memory none of the four overloads returns it.
\<close>


theorem set_mutation_rate_not_badarg:
  "fst (set_mutation_rate (1 / 100) ((example_engine (\<lambda>i. 1 / 2) (\<lambda>i. 0) (\<lambda>fb l. 0))\<lparr>mem := False\<rparr>)) \<noteq> HG_BADARG
   \<and> fst (set_mutation_rate_fb (1 / 100) (1 / 50) ((example_engine (\<lambda>i. 1 / 2) (\<lambda>i. 0) (\<lambda>fb l. 0))\<lparr>mem := False\<rparr>)) \<noteq> HG_BADARG
   \<and> fst (set_mutation_rate_loci (\<lambda>l. 1 / 100) ((example_engine (\<lambda>i. 1 / 2) (\<lambda>i. 0) (\<lambda>fb l. 0))\<lparr>mem := False\<rparr>)) \<noteq> HG_BADARG
   \<and> fst (set_mutation_rate_table (\<lambda>fb l. 1 / 100) ((example_engine (\<lambda>i. 1 / 2) (\<lambda>i. 0) (\<lambda>fb l. 0))\<lparr>mem := False\<rparr>)) \<noteq> HG_BADARG"
  by (simp add: set_mutation_rate_def set_mutation_rate_fb_def set_mutation_rate_loci_def
      set_mutation_rate_table_def example_engine_def)

section \<open>Fitness statistics\<close>

lemma fitness_fold_eq:
  fixes pf ff :: "nat \<Rightarrow> real"
  shows "fold (\<lambda>locus (mf, sq). (mf + pf locus * ff locus, sq + pf locus * ff locus * (pf locus * ff locus)))
      [0..<n] (a, b)
     = (a + (\<Sum>i<n. pf i * ff i), b + (\<Sum>i<n. (pf i * ff i) * (pf i * ff i)))"
  by (induction n) simp_all

lemma get_fitness_statistics_eq:
  assumes "state (population st) \<noteq> HC_COEFF"
  shows "fst (get_fitness_statistics ext st) =
     \<lparr>mean = (\<Sum>i<2 ^ number_of_loci st. func (population st) i * func (fitness st) i),
      variance = (\<Sum>i<2 ^ number_of_loci st. (func (population st) i * func (fitness st) i)\<^sup>2)
                 - (\<Sum>i<2 ^ number_of_loci st. func (population st) i * func (fitness st) i)\<rparr>"
  using assms
  by (simp add: get_fitness_statistics_def get_state_def get_func_def fitness_fold_eq Let_def power2_eq_square)

text \<open>
  C8. \<^verbatim>\<open>get_fitness_statistics()\<close> returns as mean the sum over all genotypes of
  \<^verbatim>\<open>population[i]*fitness[i]\<close>, and as variance \<^verbatim>\<open>sq-mf\<close>: the sum of the squares of
  these products minus the mean, not minus the square of the mean. On the
  one-locus engine with frequencies \<open>(1, 0)\<close> and fitness \<open>(2, 0)\<close> the mean is 2 and
  the returned variance is 2, where the second moment minus the square of the
  mean is 0.
\<close>


theorem fitness_variance_not_centred:
  "variance (fst (get_fitness_statistics example_externals
       (example_engine (\<lambda>i. if i = 0 then 1 else 0) (\<lambda>i. if i = 0 then 2 else 0) (\<lambda>fb l. 0)))) = 2
   \<and> mean (fst (get_fitness_statistics example_externals
       (example_engine (\<lambda>i. if i = 0 then 1 else 0) (\<lambda>i. if i = 0 then 2 else 0) (\<lambda>fb l. 0)))) = 2
   \<and> (\<Sum>i<2 ^ 1. ((if i = 0 then 1 else 0) * (if i = (0::nat) then 2 else 0 :: real))\<^sup>2) - 2\<^sup>2 = 0"
proof -
  let ?E = "example_engine (\<lambda>i. if i = 0 then 1 else 0) (\<lambda>i. if i = 0 then 2 else 0) (\<lambda>fb l. 0)"
  have "state (population ?E) \<noteq> HC_COEFF"
    by (simp add: example_engine_def example_cube_def)
  from get_fitness_statistics_eq [OF this, of example_externals]
  show ?thesis
    by (simp add: example_engine_fields sum_lessThan_2)
qed

section \<open>The evolution driver stops at the first failure\<close>

lemma evolve_loop_failed: "e \<noteq> OK \<Longrightarrow> evolve_loop body k (e, x) = (e, x)"
  by (cases k) simp_all

lemma evolve_body_logged:
  "\<exists>e s' new.
     evolve_body (logged Select sel) (logged Mutate mut) (logged Recombine rec) (logged Resample res)
       (\<lambda>(s, calls). (tick s, calls)) (OK, (s, cs)) = (e, (s', cs @ new))
     \<and> evolve_body sel mut rec res tick (OK, s) = (e, s')
     \<and> first_error_trace 1 e new"
proof -
  obtain e1 s1 where 1: "sel s = (e1, s1)" by (cases "sel s")
  obtain e2 s2 where 2: "mut s1 = (e2, s2)" by (cases "mut s1")
  obtain e3 s3 where 3: "rec s2 = (e3, s3)" by (cases "rec s2")
  obtain e4 s4 where 4: "res s3 = (e4, s4)" by (cases "res s3")
  show ?thesis
    by (simp add: evolve_body_def guarded_def logged_def first_error_trace_def pipeline_def
        1 2 3 4 Let_def)
qed

lemma first_error_trace_failed:
  assumes "e \<noteq> OK" and "first_error_trace 1 e new"
  shows "first_error_trace (Suc k) e new"
proof -
  from assms(2) have m: "map fst new = take (length new) pipeline"
    by (simp add: first_error_trace_def)
  have "length (map fst new) \<le> length pipeline"
    by (subst m) simp
  then have "take (length new) (pipeline @ concat (replicate k pipeline)) = take (length new) pipeline"
    by simp
  then have a: "map fst new = take (length new) (concat (replicate (Suc k) pipeline))"
    using m by simp
  from assms have b: "\<forall>c \<in> set (butlast new). snd c = OK"
    and c: "new \<noteq> [] \<and> snd (last new) = e"
    unfolding first_error_trace_def by blast+
  from a b c assms(1) show ?thesis
    unfolding first_error_trace_def by blast
qed

lemma first_error_trace_append:
  assumes "first_error_trace 1 OK new1" and "first_error_trace k e new2"
  shows "first_error_trace (Suc k) e (new1 @ new2)"
proof -
  from assms(1) have l: "length new1 = 4" and m: "map fst new1 = pipeline"
    and ok: "\<forall>c \<in> set new1. snd c = OK"
    by (simp_all add: first_error_trace_def pipeline_def)
  have lp: "length pipeline = 4" by (simp add: pipeline_def)
  have "map fst (new1 @ new2) = pipeline @ take (length new2) (concat (replicate k pipeline))"
    using assms(2) m by (simp add: first_error_trace_def)
  also have "\<dots> = take (length (new1 @ new2)) (concat (replicate (Suc k) pipeline))"
    by (simp add: l lp)
  finally have a: "map fst (new1 @ new2) = take (length (new1 @ new2)) (concat (replicate (Suc k) pipeline))" .
  have b: "\<forall>c \<in> set (butlast (new1 @ new2)). snd c = OK"
    using assms(2) ok by (auto simp: first_error_trace_def butlast_append dest: in_set_butlastD)
  have c: "e \<noteq> OK \<longrightarrow> new1 @ new2 \<noteq> [] \<and> snd (last (new1 @ new2)) = e"
    using assms(2) by (simp add: first_error_trace_def)
  have d: "e = OK \<longrightarrow> length (new1 @ new2) = 4 * Suc k \<and> (\<forall>c \<in> set (new1 @ new2). snd c = OK)"
    using assms(2) ok l by (auto simp: first_error_trace_def)
  from a b c d show ?thesis
    unfolding first_error_trace_def by blast
qed

lemma evolve_loop_logged:
  fixes sel mut rec res :: "'s \<Rightarrow> retcode \<times> 's" and tick :: "'s \<Rightarrow> 's"
  defines "bodyL \<equiv> evolve_body (logged Select sel) (logged Mutate mut) (logged Recombine rec)
      (logged Resample res) (\<lambda>(s, calls). (tick s, calls))"
    and "body \<equiv> evolve_body sel mut rec res tick"
  shows "\<exists>e s' new.
     evolve_loop bodyL k (OK, (s, cs)) = (e, (s', cs @ new))
     \<and> evolve_loop body k (OK, s) = (e, s')
     \<and> first_error_trace k e new"
proof (induction k arbitrary: s cs)
  case 0
  show ?case by (simp add: first_error_trace_def)
next
  case (Suc k)
  from evolve_body_logged [of sel mut rec res tick s cs]
  obtain e1 s1 new1 where
    l1: "bodyL (OK, (s, cs)) = (e1, (s1, cs @ new1))" and
    p1: "body (OK, s) = (e1, s1)" and
    t1: "first_error_trace 1 e1 new1"
    unfolding bodyL_def body_def by blast
  show ?case
  proof (cases "e1 = OK")
    case False
    then show ?thesis
      using l1 p1 first_error_trace_failed [OF False t1, of k]
      by (simp add: evolve_loop_failed)
  next
    case True
    from Suc [of s1 "cs @ new1"] obtain e s' new2 where
      l2: "evolve_loop bodyL k (OK, (s1, cs @ new1)) = (e, (s', (cs @ new1) @ new2))" and
      p2: "evolve_loop body k (OK, s1) = (e, s')" and
      t2: "first_error_trace k e new2"
      by blast
    from t1 t2 True have "first_error_trace (Suc k) e (new1 @ new2)"
      by (simp add: first_error_trace_append)
    then show ?thesis
      using l1 p1 l2 p2 True by simp
  qed
qed

lemma count_generation_elapsed:
  "real_of_int (generation (count_generation ext st)) + long_time_generation (count_generation ext st)
     = real_of_int (generation st) + long_time_generation st + 1"
  by (simp add: count_generation_def Let_def)

lemma evolve_with_logged:
  fixes sel mut rec res :: "'s \<Rightarrow> retcode \<times> 's" and tick :: "'s \<Rightarrow> 's"
    and gen :: int and s :: 's
  defines "run \<equiv> evolve_logged sel mut rec res tick gen s"
  shows "evolve_with sel mut rec res tick gen s = (fst run, fst (snd run))
    \<and> first_error_trace (nat gen) (fst run) (snd (snd run))"
proof -
  from evolve_loop_logged [of sel mut rec res tick "nat gen" s "[]"]
  obtain e s' new where
    l: "run = (e, (s', new))" and
    p: "evolve_with sel mut rec res tick gen s = (e, s')" and
    t: "first_error_trace (nat gen) e new"
    unfolding run_def evolve_logged_def evolve_with_def by auto
  from l p t show ?thesis by simp
qed

lemma example_select_fixed:
  "select ((example_engine (\<lambda>i. if i = 0 then 1 / 4 else 3 / 4) (\<lambda>i. 0) (\<lambda>fb l. 0))\<lparr>outcrossing_rate := 0\<rparr>)
     = (OK, (example_engine (\<lambda>i. if i = 0 then 1 / 4 else 3 / 4) (\<lambda>i. 0) (\<lambda>fb l. 0))\<lparr>outcrossing_rate := 0\<rparr>)"
  by (simp add: select_def select_loop_eq set_state_def scale_def Let_def example_engine_def
      example_cube_def sum_lessThan_2 fun_eq_iff)

lemma example_mutate_fixed:
  "mutate ((example_engine (\<lambda>i. if i = 0 then 1 / 4 else 3 / 4) (\<lambda>i. 0) (\<lambda>fb l. 0))\<lparr>outcrossing_rate := 0\<rparr>)
     = (OK, (example_engine (\<lambda>i. if i = 0 then 1 / 4 else 3 / 4) (\<lambda>i. 0) (\<lambda>fb l. 0))\<lparr>outcrossing_rate := 0\<rparr>)"
  by (simp add: mutate_def mutate_fill_eq mutate_add_eq mutate_locus_def set_state_def Let_def
      example_engine_def example_cube_def fun_eq_iff)

lemma fold_unchanged: "fold (\<lambda>i p. p) xs p0 = p0"
  by (induction xs) simp_all

lemma example_recombine_unmixed:
  fixes X :: "nat externals"
  defines "E \<equiv> (example_engine (\<lambda>i. if i = 0 then 1 / 4 else 3 / 4) (\<lambda>i. 0) (\<lambda>fb l. 0))\<lparr>outcrossing_rate := 0\<rparr>"
  assumes "fft_func_to_coeff X = walsh_func_to_coeff"
  shows "fst (recombine X E) = OK"
    and "func (population (snd (recombine X E))) = (\<lambda>i. if i = 0 then 1 / 4 else 3 / 4)"
    and "number_of_loci (snd (recombine X E)) = 1"
    and "population_size (snd (recombine X E)) = 1000"
    and "dimension (population (snd (recombine X E))) = 1"
    and "rng (snd (recombine X E)) = 0"
  by (simp_all add: recombine_def calculate_recombinants_def calculate_recombinants_free_def
      set_state_def Let_def E_def example_engine_def example_cube_def fold_unchanged
      assms(2) walsh_func_to_coeff_def)

lemma example_resample_extinct:
  fixes X :: "nat externals"
  defines "X \<equiv> example_externals\<lparr>gsl_ran_poisson := (\<lambda>g mu. (0, Suc g))\<rparr>"
  defines "E \<equiv> (example_engine (\<lambda>i. if i = 0 then 1 / 4 else 3 / 4) (\<lambda>i. 0) (\<lambda>fb l. 0))\<lparr>outcrossing_rate := 0\<rparr>"
  shows "fst (resample_default X (snd (recombine X E))) = HG_EXTINCT"
proof -
  have t: "fft_func_to_coeff X = walsh_func_to_coeff"
    by (simp add: X_def example_externals_def)
  note f = example_recombine_unmixed [OF t, folded E_def]
  have dim: "dimension (population (snd (recombine X E))) = number_of_loci (snd (recombine X E))"
    by (simp add: f)
  note w = resample_with_eq [OF dim, of X 1000, unfolded f sum_lessThan_2 power_one_right]
  have n0: "resample_default_n X = 0"
    and c: "HG_CONTINUOUS X = 10000" and e: "HG_NOTHING X = 1 / 10 ^ 15"
    and k: "gsl_ran_poisson X = (\<lambda>g mu. (0, Suc g))"
    by (simp_all add: X_def example_externals_def)
  have "resample X (resample_default_n X) (snd (recombine X E))
      = resample_with X 1000 (snd (recombine X E))"
    by (simp add: resample_def f n0)
  then show ?thesis
    unfolding resample_default_def w
    by (simp add: c e k numeral_2_eq_2)
qed

text \<open>
  C7. \<^verbatim>\<open>evolve(gen)\<close> returns the code and the state of the run of the engine's
  operators \<^verbatim>\<open>select\<close>, \<^verbatim>\<open>mutate\<close>, \<^verbatim>\<open>recombine\<close> and \<^verbatim>\<open>resample\<close> that keeps a record
  of its calls, and the record is as follows. The calls are an initial piece of
  the sequence select, mutate, recombine, resample repeated \<open>gen\<close> times; every
  call but the last returned 0; when \<^verbatim>\<open>evolve\<close> returns a code other than 0, that
  code is the one the last call returned, so no operator is called after the
  first failure, in that generation or a later one; when \<^verbatim>\<open>evolve\<close> returns 0, all
  \<open>4 * gen\<close> calls were made and all returned 0.
\<close>


theorem evolve_stops_at_first_error:
  fixes ext :: "'r externals" and st :: "'r haploid_gt_dis" and gen :: int
  defines "run \<equiv> evolve_logged select mutate (recombine ext) (resample_default ext)
      (count_generation ext) gen st"
  defines "err \<equiv> fst run" and "calls \<equiv> snd (snd run)"
  shows "evolve ext gen st = (err, fst (snd run))
    \<and> map fst calls = take (length calls) (concat (replicate (nat gen) [Select, Mutate, Recombine, Resample]))
    \<and> (\<forall>c \<in> set (butlast calls). snd c = OK)
    \<and> (err \<noteq> OK \<longrightarrow> calls \<noteq> [] \<and> snd (last calls) = err)
    \<and> (err = OK \<longrightarrow> length calls = 4 * nat gen \<and> (\<forall>c \<in> set calls. snd c = OK))"
  using evolve_with_logged [of select mutate "recombine ext" "resample_default ext"
      "count_generation ext" gen st]
  unfolding run_def err_def calls_def evolve_def first_error_trace_def pipeline_def
  by blast

theorem evolve_stops_at_first_error_witness:
  "fst (evolve (example_externals\<lparr>gsl_ran_poisson := (\<lambda>g mu. (0, Suc g))\<rparr>) 3
         ((example_engine (\<lambda>i. if i = 0 then 1 / 4 else 3 / 4) (\<lambda>i. 0) (\<lambda>fb l. 0))\<lparr>outcrossing_rate := 0\<rparr>))
     = HG_EXTINCT
   \<and> snd (snd (evolve_logged select mutate
         (recombine (example_externals\<lparr>gsl_ran_poisson := (\<lambda>g mu. (0, Suc g))\<rparr>))
         (resample_default (example_externals\<lparr>gsl_ran_poisson := (\<lambda>g mu. (0, Suc g))\<rparr>))
         (count_generation (example_externals\<lparr>gsl_ran_poisson := (\<lambda>g mu. (0, Suc g))\<rparr>)) 3
         ((example_engine (\<lambda>i. if i = 0 then 1 / 4 else 3 / 4) (\<lambda>i. 0) (\<lambda>fb l. 0))\<lparr>outcrossing_rate := 0\<rparr>)))
     = [(Select, OK), (Mutate, OK), (Recombine, OK), (Resample, HG_EXTINCT)]"
proof -
  define X :: "nat externals" where "X = example_externals\<lparr>gsl_ran_poisson := (\<lambda>g mu. (0, Suc g))\<rparr>"
  define E where "E = (example_engine (\<lambda>i. if i = 0 then 1 / 4 else 3 / 4) (\<lambda>i. 0) (\<lambda>fb l. 0))\<lparr>outcrossing_rate := 0\<rparr>"
  have t: "fft_func_to_coeff X = walsh_func_to_coeff"
    by (simp add: X_def example_externals_def)
  have s: "select E = (OK, E)" unfolding E_def by (rule example_select_fixed)
  have m: "mutate E = (OK, E)" unfolding E_def by (rule example_mutate_fixed)
  have r: "fst (recombine X E) = OK"
    unfolding E_def by (rule example_recombine_unmixed(1) [OF t])
  have d: "fst (resample_default X (snd (recombine X E))) = HG_EXTINCT"
    unfolding X_def E_def by (rule example_resample_extinct)
  have run: "evolve_logged select mutate (recombine X) (resample_default X) (count_generation X) 3 E
      = (HG_EXTINCT, count_generation X (snd (resample_default X (snd (recombine X E)))),
         [(Select, OK), (Mutate, OK), (Recombine, OK), (Resample, HG_EXTINCT)])"
    by (simp add: evolve_logged_def evolve_with_def evolve_body_def guarded_def logged_def
        eval_nat_numeral case_prod_beta Let_def s m r d)
  from evolve_stops_at_first_error [of X 3 E]
  show ?thesis
    unfolding run X_def [symmetric] E_def [symmetric] by simp
qed

section \<open>Bits, orders and sums over partitions\<close>

lemma not_bit_above: "i < 2 ^ L \<Longrightarrow> L \<le> k \<Longrightarrow> \<not> bit (i::nat) k"
proof -
  assume a: "i < 2 ^ L" "L \<le> k"
  have "(2::nat) ^ L \<le> 2 ^ k" using a(2) by simp
  with a(1) have "i < 2 ^ k" by linarith
  then show ?thesis by (simp add: bit_iff_odd)
qed

lemma bit_add_exp: "\<not> bit (a::nat) m \<Longrightarrow> bit (a + 2 ^ m) k \<longleftrightarrow> bit a k \<or> k = m"
  by (subst bit_disjunctive_add_iff) (auto simp: bit_exp_iff)

lemma top_bit_clear: "i < 2 ^ Suc L \<Longrightarrow> \<not> bit (i::nat) L \<Longrightarrow> i < 2 ^ L"
proof (rule ccontr)
  assume a: "i < 2 ^ Suc L" "\<not> bit i L" "\<not> i < 2 ^ L"
  then have "i div 2 ^ L = 1"
    by (intro div_nat_eqI) simp_all
  with a(2) show False by (simp add: bit_iff_odd)
qed

lemma top_bit_set:
  assumes "i < 2 ^ Suc L" "bit (i::nat) L"
  obtains i' where "i = i' + 2 ^ L" "i' < 2 ^ L"
proof -
  have "2 ^ L \<le> i"
  proof (rule ccontr)
    assume "\<not> 2 ^ L \<le> i"
    then have "i < 2 ^ L" by simp
    from not_bit_above [OF this, of L] assms(2) show False by simp
  qed
  with assms(1) have "i = (i - 2 ^ L) + 2 ^ L" "i - 2 ^ L < 2 ^ L" by simp_all
  then show thesis by (rule that)
qed

lemma bit_add_high: "bit (j + 2 ^ Suc c * x) c \<longleftrightarrow> bit (j::nat) c"
proof -
  have "j + 2 ^ Suc c * x = j + (2 * x) * 2 ^ c"
    by simp
  then have "(j + 2 ^ Suc c * x) div 2 ^ c = j div 2 ^ c + 2 * x"
    by (simp only: div_mult_self3) simp
  then show ?thesis by (simp add: bit_iff_odd)
qed

lemma order_tab_0: "order_tab 0 = 0"
  by (simp add: order_tab.simps)

lemma order_tab_add_exp: "\<not> bit a m \<Longrightarrow> order_tab (a + 2 ^ m) = order_tab a + 1"
proof (induction m arbitrary: a)
  case 0
  then have e: "even a" by (simp add: bit_0)
  then have "order_tab (a + 1) = 1 + order_tab (a div 2)"
    by (subst order_tab.simps) (simp add: mod2_eq_if)
  moreover from e have "order_tab a = order_tab (a div 2)"
    by (subst order_tab.simps) (auto simp: order_tab_0)
  ultimately show ?case by simp
next
  case (Suc m)
  then have n: "\<not> bit (a div 2) m" by (simp add: bit_Suc)
  have "order_tab (a + 2 ^ Suc m) = a mod 2 + order_tab (a div 2 + 2 ^ m)"
    by (subst order_tab.simps) (simp add: add.commute)
  also have "\<dots> = a mod 2 + order_tab (a div 2) + 1"
    by (simp add: Suc.IH [OF n])
  also have "a mod 2 + order_tab (a div 2) = order_tab a"
    by (subst (2) order_tab.simps) (auto simp: order_tab_0)
  finally show ?case .
qed

lemma loci_add_exp: "\<not> bit a m \<Longrightarrow> loci (a + 2 ^ m) = insert m (loci a)"
  by (auto simp: loci_def bit_add_exp)

lemma loci_bounded: "i < 2 ^ L \<Longrightarrow> loci i \<subseteq> {..<L}"
  using not_bit_above [of i L] by (auto simp: loci_def not_le [symmetric])

lemma finite_loci: "finite (loci i)"
proof -
  have "i < 2 ^ i" by simp
  from loci_bounded [OF this] show ?thesis by (rule finite_subset) simp
qed

lemma mask_of_insert: "finite M \<Longrightarrow> k \<notin> M \<Longrightarrow> mask_of (insert k M) = mask_of M + 2 ^ k"
  by (simp add: mask_of_def)

lemma sum_Pow_insert:
  fixes G :: "'a set \<Rightarrow> 'b::comm_monoid_add"
  assumes "finite A" "x \<notin> A"
  shows "(\<Sum>M\<in>Pow (insert x A). G M) = (\<Sum>M\<in>Pow A. G M) + (\<Sum>M\<in>Pow A. G (insert x M))"
proof -
  have inj: "inj_on (insert x) (Pow A)"
    using assms(2) by (auto simp: inj_on_def)
  have disj: "Pow A \<inter> insert x ` Pow A = {}"
    using assms(2) by auto
  have "(\<Sum>M\<in>Pow (insert x A). G M) = (\<Sum>M\<in>Pow A \<union> insert x ` Pow A. G M)"
    by (simp add: Pow_insert)
  also have "\<dots> = (\<Sum>M\<in>Pow A. G M) + (\<Sum>M\<in>insert x ` Pow A. G M)"
    using assms(1) disj by (intro sum.union_disjoint) simp_all
  also have "(\<Sum>M\<in>insert x ` Pow A. G M) = (\<Sum>M\<in>Pow A. G (insert x M))"
    using inj by (simp add: sum.reindex)
  finally show ?thesis .
qed

lemma sum_split_halves:
  fixes G :: "nat \<Rightarrow> 'b::comm_monoid_add"
  shows "(\<Sum>j<2 ^ Suc c. G j) = (\<Sum>j<2 ^ c. G j) + (\<Sum>j<2 ^ c. G (j + 2 ^ c))"
proof -
  have "{..<(2::nat) ^ Suc c} = {..<2 ^ c} \<union> (\<lambda>j. j + 2 ^ c) ` {..<2 ^ c}"
  proof (rule set_eqI)
    fix j :: nat
    show "j \<in> {..<2 ^ Suc c} \<longleftrightarrow> j \<in> {..<2 ^ c} \<union> (\<lambda>j. j + 2 ^ c) ` {..<2 ^ c}"
    proof (cases "j < 2 ^ c")
      case True
      then show ?thesis by simp
    next
      case False
      then have "j = (j - 2 ^ c) + 2 ^ c" by simp
      then show ?thesis
        using False by (auto simp: image_iff intro!: bexI [where x = "j - 2 ^ c"])
    qed
  qed
  moreover have "{..<(2::nat) ^ c} \<inter> (\<lambda>j. j + 2 ^ c) ` {..<2 ^ c} = {}"
    by auto
  moreover have "inj_on (\<lambda>j::nat. j + 2 ^ c) {..<2 ^ c}"
    by (simp add: inj_on_def)
  ultimately show ?thesis
    by (simp add: sum.union_disjoint sum.reindex)
qed

lemma partition_step_bit:
  "partition_step i j k (c, m, p) =
     (if bit i k then (if bit j c then (c + 1, m + 2 ^ k, p) else (c + 1, m, p + 2 ^ k))
      else (c, m, p))"
  by (simp add: partition_step_def and_exp_eq_0_iff_not_bit)

lemma partition_step_cong:
  "bit i k = bit i2 k \<Longrightarrow> partition_step i j k x = partition_step i2 j k x"
  by (cases x) (simp add: partition_step_bit)

lemma partition_fold_cong:
  "(\<And>k. k < n \<Longrightarrow> bit i k = bit i2 k) \<Longrightarrow>
     fold (partition_step i j) [0..<n] z = fold (partition_step i2 j) [0..<n] z"
proof (induction n)
  case 0
  show ?case by simp
next
  case (Suc n)
  have "fold (partition_step i j) [0..<n] z = fold (partition_step i2 j) [0..<n] z"
    by (rule Suc.IH) (simp add: Suc.prems)
  moreover have "bit i n = bit i2 n"
    by (simp add: Suc.prems)
  ultimately show ?case
    by (simp add: partition_step_cong [of i n i2])
qed

lemma partition_fold_top_clear:
  "\<not> bit i L \<Longrightarrow>
     fold (partition_step i j) [0..<Suc L] z = fold (partition_step i j) [0..<L] z"
  by (cases "fold (partition_step i j) [0..<L] z") (simp add: partition_step_bit)

lemma partition_fold_top_set:
  assumes "i' < 2 ^ L"
  shows "fold (partition_step (i' + 2 ^ L) j) [0..<Suc L] z =
     (case fold (partition_step i' j) [0..<L] z of
        (c, m, p) \<Rightarrow> if bit j c then (c + 1, m + 2 ^ L, p) else (c + 1, m, p + 2 ^ L))"
proof -
  have n: "\<not> bit i' L"
    using assms by (rule not_bit_above) simp
  have "fold (partition_step (i' + 2 ^ L) j) [0..<L] z = fold (partition_step i' j) [0..<L] z"
    by (rule partition_fold_cong) (simp add: bit_add_exp [OF n])
  moreover have "bit (i' + 2 ^ L) L"
    by (simp add: bit_add_exp [OF n])
  ultimately show ?thesis
    by (cases "fold (partition_step i' j) [0..<L] z") (simp add: partition_step_bit)
qed

lemma partition_fold_count:
  "i < 2 ^ L \<Longrightarrow>
     fst (fold (partition_step i j) [0..<L] (0, 0, 0)) = order_tab i
     \<and> fold (partition_step i (j + 2 ^ order_tab i * x)) [0..<L] (0, 0, 0)
         = fold (partition_step i j) [0..<L] (0, 0, 0)"
proof (induction L arbitrary: i j x)
  case 0
  then show ?case by (simp add: order_tab_0)
next
  case (Suc L)
  show ?case
  proof (cases "bit i L")
    case False
    with Suc.prems have "i < 2 ^ L" by (rule top_bit_clear)
    from Suc.IH [OF this, of j x] show ?thesis
      unfolding partition_fold_top_clear [OF False] .
  next
    case True
    with Suc.prems obtain i' where i: "i = i' + 2 ^ L" and l: "i' < 2 ^ L"
      by (rule top_bit_set)
    have n: "\<not> bit i' L"
      using l by (rule not_bit_above) simp
    have o: "order_tab i = Suc (order_tab i')"
      by (simp add: i order_tab_add_exp [OF n])
    obtain c m p where q: "fold (partition_step i' j) [0..<L] (0, 0, 0) = (c, m, p)"
      by (cases "fold (partition_step i' j) [0..<L] (0, 0, 0)")
    from Suc.IH [OF l, of j] q have c: "c = order_tab i'" by simp
    have e: "2 ^ order_tab i * x = 2 ^ order_tab i' * (2 * x)"
      by (simp add: o)
    from Suc.IH [OF l, of j "2 * x"] q
    have "fold (partition_step i' (j + 2 ^ order_tab i' * (2 * x))) [0..<L] (0, 0, 0) = (c, m, p)"
      by simp
    then have q': "fold (partition_step i' (j + 2 ^ order_tab i * x)) [0..<L] (0, 0, 0) = (c, m, p)"
      by (simp only: e)
    have b: "bit (j + 2 ^ order_tab i * x) c \<longleftrightarrow> bit j c"
      unfolding o c by (rule bit_add_high)
    show ?thesis
      unfolding i partition_fold_top_set [OF l]
      using q q' b c o by (simp add: i)
  qed
qed

lemma partition_sum:
  fixes F :: "nat \<times> nat \<Rightarrow> 'b::comm_monoid_add"
  shows "i < 2 ^ L \<Longrightarrow>
     (\<Sum>j<2 ^ order_tab i. F (snd (fold (partition_step i j) [0..<L] (0, 0, 0))))
       = (\<Sum>M\<in>Pow (loci i). F (mask_of M, mask_of (loci i - M)))"
proof (induction L arbitrary: i F)
  case 0
  then show ?case by (simp add: order_tab_0 loci_def mask_of_def)
next
  case (Suc L)
  show ?case
  proof (cases "bit i L")
    case False
    with Suc.prems have "i < 2 ^ L" by (rule top_bit_clear)
    from Suc.IH [OF this, of F] show ?thesis
      unfolding partition_fold_top_clear [OF False] .
  next
    case True
    with Suc.prems obtain i' where i: "i = i' + 2 ^ L" and l: "i' < 2 ^ L"
      by (rule top_bit_set)
    have n: "\<not> bit i' L"
      using l by (rule not_bit_above) simp
    define c where "c = order_tab i'"
    define A where "A = loci i'"
    define Q where "Q = (\<lambda>j. snd (fold (partition_step i' j) [0..<L] (0, 0, 0)))"
    define F1 where "F1 = (\<lambda>(m, p). F (m, p + 2 ^ L))"
    define F2 where "F2 = (\<lambda>(m, p). F (m + 2 ^ L, p))"
    have o: "order_tab i = Suc c"
      by (simp add: i c_def order_tab_add_exp [OF n])
    have fin: "finite A"
      unfolding A_def by (rule finite_loci)
    have notin: "L \<notin> A"
      using n by (simp add: A_def loci_def)
    have li: "loci i = insert L A"
      by (simp add: i A_def loci_add_exp [OF n])
    have cnt: "fst (fold (partition_step i' j) [0..<L] (0, 0, 0)) = c" for j
      using partition_fold_count [OF l, of j 0] by (simp add: c_def)
    have low: "F (snd (fold (partition_step i j) [0..<Suc L] (0, 0, 0))) = F1 (Q j)"
      if "j < 2 ^ c" for j
    proof -
      have "\<not> bit j c" using that by (rule not_bit_above) simp
      then show ?thesis
        unfolding i partition_fold_top_set [OF l] using cnt [of j]
        by (cases "fold (partition_step i' j) [0..<L] (0, 0, 0)") (simp add: F1_def Q_def)
    qed
    have high: "F (snd (fold (partition_step i (j + 2 ^ c)) [0..<Suc L] (0, 0, 0))) = F2 (Q j)"
      if "j < 2 ^ c" for j
    proof -
      have nb: "\<not> bit j c" using that by (rule not_bit_above) simp
      have b: "bit (j + 2 ^ c) c" by (simp add: bit_add_exp [OF nb])
      have same: "fold (partition_step i' (j + 2 ^ c)) [0..<L] (0, 0, 0)
          = fold (partition_step i' j) [0..<L] (0, 0, 0)"
        using partition_fold_count [OF l, of j 1] by (simp add: c_def)
      show ?thesis
        unfolding i partition_fold_top_set [OF l] same using cnt [of j] b
        by (cases "fold (partition_step i' j) [0..<L] (0, 0, 0)") (simp add: F2_def Q_def)
    qed
    have "(\<Sum>j<2 ^ order_tab i. F (snd (fold (partition_step i j) [0..<Suc L] (0, 0, 0))))
        = (\<Sum>j<2 ^ c. F1 (Q j)) + (\<Sum>j<2 ^ c. F2 (Q j))"
      unfolding o sum_split_halves using low high by simp
    also have "(\<Sum>j<2 ^ c. F1 (Q j)) = (\<Sum>M\<in>Pow A. F1 (mask_of M, mask_of (A - M)))"
      unfolding c_def Q_def A_def by (rule Suc.IH [OF l])
    also have "(\<Sum>j<2 ^ c. F2 (Q j)) = (\<Sum>M\<in>Pow A. F2 (mask_of M, mask_of (A - M)))"
      unfolding c_def Q_def A_def by (rule Suc.IH [OF l])
    also have "(\<Sum>M\<in>Pow A. F1 (mask_of M, mask_of (A - M)))
        = (\<Sum>M\<in>Pow A. F (mask_of M, mask_of (insert L A - M)))"
    proof (rule sum.cong)
      fix M assume "M \<in> Pow A"
      then have "insert L A - M = insert L (A - M)"
        using notin by auto
      then show "F1 (mask_of M, mask_of (A - M)) = F (mask_of M, mask_of (insert L A - M))"
        using fin notin by (simp add: F1_def mask_of_insert)
    qed simp
    also have "(\<Sum>M\<in>Pow A. F2 (mask_of M, mask_of (A - M)))
        = (\<Sum>M\<in>Pow A. F (mask_of (insert L M), mask_of (insert L A - insert L M)))"
    proof (rule sum.cong)
      fix M assume m: "M \<in> Pow A"
      then have "insert L A - insert L M = A - M"
        using notin by auto
      moreover have "finite M" "L \<notin> M"
        using m fin notin by (auto intro: finite_subset)
      ultimately show "F2 (mask_of M, mask_of (A - M))
          = F (mask_of (insert L M), mask_of (insert L A - insert L M))"
        by (simp add: F2_def mask_of_insert)
    qed simp
    also have "(\<Sum>M\<in>Pow A. F (mask_of M, mask_of (insert L A - M)))
        + (\<Sum>M\<in>Pow A. F (mask_of (insert L M), mask_of (insert L A - insert L M)))
        = (\<Sum>M\<in>Pow (insert L A). F (mask_of M, mask_of (insert L A - M)))"
      by (rule sum_Pow_insert [OF fin notin, symmetric])
    finally show ?thesis
      unfolding li .
  qed
qed

lemma partition_masks_eq: "partition_masks L i j = snd (fold (partition_step i j) [0..<L] (0, 0, 0))"
  by (simp add: partition_masks_def)

lemma card_partitions: "i < 2 ^ L \<Longrightarrow> card (Pow (loci i)) = 2 ^ order_tab i"
  using partition_sum [of i L "\<lambda>x. 1 :: nat"] by simp

section \<open>Free recombination\<close>

lemma fold_upd_indep_from:
  "fold (\<lambda>i m. m(i := h i)) [a..<n] m0 = (\<lambda>i. if a \<le> i \<and> i < n then h i else m0 i)"
  by (induction n) (auto simp: fun_eq_iff)

lemma recombinant_coeff_free_eq:
  assumes "i < 2 ^ L"
  shows "recombinant_coeff_free L pc i c =
     c(i := (\<Sum>M\<in>Pow (loci i). pc (mask_of M) * pc (mask_of (loci i - M))) * 2 ^ (L - order_tab i))"
proof -
  have "fold (\<lambda>j c. let (maternal_alleles, paternal_alleles) = partition_masks L i j
                     in c(i := c i + pc maternal_alleles * pc paternal_alleles))
          [0..<2 ^ order_tab i] (c(i := 0))
      = (c(i := 0))(i := (c(i := 0)) i
          + (\<Sum>j<2 ^ order_tab i. pc (fst (partition_masks L i j)) * pc (snd (partition_masks L i j))))"
    by (simp add: case_prod_beta fold_accum_at)
  moreover have "(\<Sum>j<2 ^ order_tab i. pc (fst (partition_masks L i j)) * pc (snd (partition_masks L i j)))
      = (\<Sum>M\<in>Pow (loci i). pc (mask_of M) * pc (mask_of (loci i - M)))"
    using partition_sum [OF assms, of "\<lambda>(m, p). pc m * pc p"]
    by (simp add: partition_masks_eq case_prod_beta)
  ultimately show ?thesis
    by (simp add: recombinant_coeff_free_def Let_def)
qed

lemma recombinant_coeffs_free_eq:
  "fold (recombinant_coeff_free L pc) [Suc 0..<2 ^ L] c0 =
     (\<lambda>i. if 0 < i \<and> i < 2 ^ L
          then (\<Sum>M\<in>Pow (loci i). pc (mask_of M) * pc (mask_of (loci i - M))) * 2 ^ (L - order_tab i)
          else c0 i)"
proof -
  have "fold (recombinant_coeff_free L pc) [Suc 0..<2 ^ L] c0 =
      fold (\<lambda>i c. c(i := (\<Sum>M\<in>Pow (loci i). pc (mask_of M) * pc (mask_of (loci i - M)))
                            * 2 ^ (L - order_tab i))) [Suc 0..<2 ^ L] c0"
    by (rule fold_cong) (auto simp: recombinant_coeff_free_eq intro!: ext)
  then show ?thesis
    by (simp add: fold_upd_indep_from Suc_le_eq)
qed

lemma example_engine_recombination:
  "free_recombination (example_engine p f rates)"
  "outcrossing_rate (example_engine p f rates) = 1 / 2"
  "population (example_engine p f rates) = example_cube (Suc 0) p"
  "recombinants (example_engine p f rates) = example_cube (Suc 0) (\<lambda>i. 0)"
  by (simp_all add: example_engine_def)

lemma example_cube_fields:
  "dimension (example_cube L f) = L"
  "func (example_cube L f) = f"
  "coeff (example_cube L f) = (\<lambda>i. 0)"
  by (simp_all add: example_cube_def)

lemma example_externals_transforms:
  "fft_func_to_coeff example_externals = walsh_func_to_coeff"
  "fft_coeff_to_func example_externals = walsh_coeff_to_func"
  by (simp_all add: example_externals_def)

lemma walsh_one_locus:
  "walsh (Suc 0) 0 g = 1"
  "walsh (Suc 0) (Suc 0) 0 = - 1"
  "walsh (Suc 0) (Suc 0) (Suc 0) = 1"
  by (simp_all add: walsh_def bit_Suc_0_iff)

lemma walsh_func_to_coeff_one_locus:
  assumes "dimension h = Suc 0"
  shows "coeff (walsh_func_to_coeff h) 0 = (func h 0 + func h (Suc 0)) / 2"
    and "coeff (walsh_func_to_coeff h) (Suc 0) = (func h (Suc 0) - func h 0) / 2"
    and "func (walsh_func_to_coeff h) = func h"
  using assms by (simp_all add: walsh_func_to_coeff_def sum_lessThan_2 walsh_one_locus)

lemma walsh_coeff_to_func_one_locus:
  assumes "dimension h = Suc 0"
  shows "func (walsh_coeff_to_func h) 0 = coeff h 0 - coeff h (Suc 0)"
    and "func (walsh_coeff_to_func h) (Suc 0) = coeff h 0 + coeff h (Suc 0)"
  using assms by (simp_all add: walsh_coeff_to_func_def sum_lessThan_2 walsh_one_locus)

lemma partitions_one_locus:
  "(\<Sum>M\<in>Pow (loci (Suc 0)). g (mask_of M) (mask_of (loci (Suc 0) - M))) = g 0 (Suc 0) + (g (Suc 0) 0 :: real)"
proof -
  have l: "loci (Suc 0) = {0}"
    by (auto simp: loci_def bit_Suc_0_iff)
  have p: "Pow {0::nat} = {{}, {0}}"
    by auto
  show ?thesis
    by (simp add: l p mask_of_def)
qed

lemma order_tab_1: "order_tab (Suc 0) = 1"
  by (simp add: order_tab.simps)

text \<open>
  C1. With the free-recombination model enabled, \<^verbatim>\<open>recombine()\<close> returns 0 and does
  the following. The population is transformed to coefficients (\<open>pop1\<close>, with
  coefficients \<open>pc\<close>). The coefficients \<open>c\<close> of the recombinants are
  \<open>c 0 = 1 / 2 ^ L\<close> and, for every other subset \<open>i\<close>, the sum over all partitions of
  the loci of \<open>i\<close> into a maternal part \<open>M\<close> and the paternal rest of
  \<open>pc (mask_of M) * pc (mask_of (loci i - M))\<close>, times \<open>2 ^ (L - order i)\<close>; there are
  \<open>2 ^ order i\<close> such partitions. The recombinants are the back-transform \<open>rec1\<close> of
  \<open>c\<close>, and every genotype frequency becomes
  \<^verbatim>\<open>population[i] + outcrossing_rate * (recombinants[i] - population[i])\<close>.
  The two transforms are parameters: the statement holds whatever they compute.
\<close>

theorem recombine_free:
  fixes ext :: "'r externals" and st :: "'r haploid_gt_dis"
  defines "L \<equiv> number_of_loci st"
    and "pop1 \<equiv> fft_func_to_coeff ext (population st)"
  defines "pc \<equiv> coeff pop1"
  defines "c \<equiv> \<lambda>i. if i = 0 then 1 / 2 ^ L
                    else if i < 2 ^ L
                    then (\<Sum>M\<in>Pow (loci i). pc (mask_of M) * pc (mask_of (loci i - M)))
                         * 2 ^ (L - order_tab i)
                    else coeff (recombinants st) i"
  defines "rec1 \<equiv> fft_coeff_to_func ext ((recombinants st)\<lparr>state := HC_COEFF, coeff := c\<rparr>)"
  assumes free: "free_recombination st"
  shows "recombine ext st =
      (OK, st\<lparr>population := pop1\<lparr>state := HC_FUNC,
                    func := (\<lambda>i. if i < 2 ^ L
                                 then func pop1 i + outcrossing_rate st * (func rec1 i - func pop1 i)
                                 else func pop1 i)\<rparr>,
              recombinants := rec1\<rparr>)
    \<and> (\<forall>i<2 ^ L. card (Pow (loci i)) = 2 ^ order_tab i)"
proof -
  have c: "fold (recombinant_coeff_free (number_of_loci st) (coeff (fft_func_to_coeff ext (population st))))
      [Suc 0..<2 ^ number_of_loci st]
      ((coeff (recombinants st))(0 := 1 / 2 ^ number_of_loci st)) = c"
    by (auto simp add: recombinant_coeffs_free_eq c_def pc_def pop1_def L_def fun_eq_iff)
  have "calculate_recombinants ext st = (OK, st\<lparr>population := pop1, recombinants := rec1\<rparr>)"
    using free
    by (simp add: calculate_recombinants_def calculate_recombinants_free_def Let_def set_state_def
        c rec1_def pop1_def L_def)
  then have "recombine ext st =
      (OK, st\<lparr>population := pop1\<lparr>state := HC_FUNC,
                    func := (\<lambda>i. if i < 2 ^ L
                                 then func pop1 i + outcrossing_rate st * (func rec1 i - func pop1 i)
                                 else func pop1 i)\<rparr>,
              recombinants := rec1\<rparr>)"
    using free
    by (simp add: recombine_def Let_def set_state_def L_def
        fold_upd_pointwise [where g = "\<lambda>i x. x + outcrossing_rate st * (func rec1 i - x)"])
  then show ?thesis
    by (simp add: card_partitions L_def)
qed

theorem recombine_free_witness:
  "fst (recombine example_externals (example_engine (\<lambda>i. if i = 0 then 1 / 4 else 3 / 4) (\<lambda>i. 0) (\<lambda>fb l. 0))) = OK
   \<and> func (population (snd (recombine example_externals
         (example_engine (\<lambda>i. if i = 0 then 1 / 4 else 3 / 4) (\<lambda>i. 0) (\<lambda>fb l. 0))))) (Suc 0) = 3 / 4"
proof -
  let ?p = "\<lambda>i::nat. if i = 0 then 1 / 4 else 3 / 4 :: real"
  let ?E = "example_engine ?p (\<lambda>i. 0) (\<lambda>fb l. 0)"
  let ?pop1 = "walsh_func_to_coeff (example_cube (Suc 0) ?p)"
  have free: "free_recombination ?E"
    by (simp add: example_engine_recombination)
  have d: "dimension (example_cube (Suc 0) ?p) = Suc 0"
    by (simp add: example_cube_fields)
  have pc: "coeff ?pop1 0 = 1 / 2" "coeff ?pop1 (Suc 0) = 1 / 4" "func ?pop1 = ?p"
    by (simp_all add: walsh_func_to_coeff_one_locus [OF d] example_cube_fields)
  note r = recombine_free [OF free, of example_externals, THEN conjunct1,
      unfolded example_engine_fields example_engine_recombination example_externals_transforms]
  have "func (population (snd (recombine example_externals ?E))) (Suc 0) = 3 / 4"
    unfolding r
    by (simp add: pc walsh_coeff_to_func_one_locus example_cube_fields
        partitions_one_locus [where g = "\<lambda>m p. coeff ?pop1 m * coeff ?pop1 p"] order_tab_1)
  moreover have "fst (recombine example_externals ?E) = OK"
    unfolding r by simp
  ultimately show ?thesis by simp
qed

section \<open>Marginalization of the recombination patterns\<close>

lemma marginalize_row_fold:
  assumes "hs \<noteq> s"
  shows "fold (\<lambda>r rp. upd2 rp s r (rp hs (h r) + rp hs (h r + d))) [0..<n] rp =
     rp(s := (\<lambda>r. if r < n then rp hs (h r) + rp hs (h r + d) else rp s r))"
proof (induction n)
  case 0
  show ?case by simp
next
  case (Suc n)
  let ?f = "\<lambda>r rp. upd2 rp s r (rp hs (h r) + rp hs (h r + d))"
  let ?T = "rp(s := (\<lambda>r. if r < n then rp hs (h r) + rp hs (h r + d) else rp s r))"
  have "fold ?f [0..<Suc n] rp = ?f n (fold ?f [0..<n] rp)"
    by simp
  also have "\<dots> = ?f n ?T"
    by (simp only: Suc)
  also have "\<dots> = rp(s := (\<lambda>r. if r < Suc n then rp hs (h r) + rp hs (h r + d) else rp s r))"
    using assms by (auto simp add: upd2_def fun_eq_iff)
  finally show ?case .
qed

lemma marginalize_subset_eq:
  "marginalize_subset L k s rp =
     (case find (\<lambda>locus. s AND 2 ^ locus = 0) [0..<L] of
        None \<Rightarrow> rp
      | Some m \<Rightarrow> rp(s := marginal_row rp s m k))"
proof (cases "find (\<lambda>locus. s AND 2 ^ locus = 0) [0..<L]")
  case None
  then show ?thesis by (simp add: marginalize_subset_def)
next
  case (Some m)
  have "s + 2 ^ m \<noteq> s" by simp
  from marginalize_row_fold [OF this, of "higher_pattern m k" "2 ^ m" "2 ^ k" rp]
  show ?thesis
    by (simp add: marginalize_subset_def Some Let_def higher_pattern_def marginal_row_def)
qed

lemma find_first_zero:
  "find (\<lambda>locus. s AND 2 ^ locus = 0) [0..<L] = Some m
     \<longleftrightarrow> m < L \<and> \<not> bit s m \<and> (\<forall>k<m. bit s k)"
  by (auto simp: find_Some_iff and_exp_eq_0_iff_not_bit)

lemma marginal_row_cong:
  "rp1 s = rp2 s \<Longrightarrow> rp1 (s + 2 ^ m) = rp2 (s + 2 ^ m) \<Longrightarrow> marginal_row rp1 s m k = marginal_row rp2 s m k"
  by (simp add: marginal_row_def fun_eq_iff)

lemma marginalize_pass_prefix:
  "fold (\<lambda>s rp. if order_tab s = k then marginalize_subset L k s rp else rp) [0..<n] rp =
     (\<lambda>s. if s < n then marginal_table L k rp s else rp s)"
proof (induction n)
  case 0
  show ?case by simp
next
  case (Suc n)
  let ?f = "\<lambda>s rp. if order_tab s = k then marginalize_subset L k s rp else rp"
  let ?T = "\<lambda>s. if s < n then marginal_table L k rp s else rp s"
  have "fold ?f [0..<Suc n] rp = ?f n (fold ?f [0..<n] rp)"
    by simp
  also have "\<dots> = ?f n ?T"
    by (simp only: Suc)
  also have "\<dots> = (\<lambda>s. if s < Suc n then marginal_table L k rp s else rp s)"
  proof (cases "order_tab n = k")
    case False
    then show ?thesis
      by (auto simp: fun_eq_iff marginal_table_def less_Suc_eq)
  next
    case True
    show ?thesis
    proof (cases "find (\<lambda>locus. n AND 2 ^ locus = 0) [0..<L]")
      case None
      then show ?thesis
        using True by (auto simp: fun_eq_iff marginal_table_def less_Suc_eq marginalize_subset_eq)
    next
      case (Some m)
      then have "\<not> bit n m" by (simp add: find_first_zero)
      then have "order_tab (n + 2 ^ m) \<noteq> k"
        using True by (simp add: order_tab_add_exp)
      then have "?T (n + 2 ^ m) = rp (n + 2 ^ m)"
        by (simp add: marginal_table_def)
      moreover have "?T n = rp n" by simp
      ultimately have "marginal_row ?T n m k = marginal_row rp n m k"
        by (rule marginal_row_cong [rotated])
      then show ?thesis
        using True Some
        by (auto simp: fun_eq_iff marginal_table_def less_Suc_eq marginalize_subset_eq)
    qed
  qed
  finally show ?case .
qed

lemma marginalize_pass:
  assumes inv: "\<And>s. s < 2 ^ L \<Longrightarrow> Suc k \<le> order_tab s \<Longrightarrow> marginalized L rp s"
  defines "rp' \<equiv> fold (\<lambda>s rp. if order_tab s = k then marginalize_subset L k s rp else rp) [0..<2 ^ L] rp"
  assumes s: "s < 2 ^ L" and k: "k \<le> order_tab s"
  shows "marginalized L rp' s"
proof -
  have rp': "rp' = (\<lambda>s. if s < 2 ^ L then marginal_table L k rp s else rp s)"
    unfolding rp'_def by (rule marginalize_pass_prefix)
  have keep: "rp' t = rp t" if "order_tab t \<noteq> k" for t
    using that by (simp add: rp' marginal_table_def)
  show ?thesis
    unfolding marginalized_def
  proof (intro allI impI)
    fix m
    assume m: "m < L \<and> \<not> bit s m \<and> (\<forall>k<m. bit s k)"
    then have o: "order_tab (s + 2 ^ m) = Suc (order_tab s)"
      by (simp add: order_tab_add_exp)
    show "rp' s = marginal_row rp' s m (order_tab s)"
    proof (cases "order_tab s = k")
      case True
      from m have f: "find (\<lambda>locus. s AND 2 ^ locus = 0) [0..<L] = Some m"
        by (simp add: find_first_zero)
      have h: "rp' (s + 2 ^ m) = rp (s + 2 ^ m)"
        using o True by (simp add: keep)
      have e: "rp' s = marginal_row rp s m k"
        using s True f by (simp add: rp' marginal_table_def)
      have "marginal_row rp s m k r = marginal_row rp' s m k r" for r
        unfolding marginal_row_def [of rp'] h unfolding e
        by (simp add: marginal_row_def)
      with e True show ?thesis by (simp add: fun_eq_iff)
    next
      case False
      with k have g: "Suc k \<le> order_tab s" by simp
      from inv [OF s g] m have a: "rp s = marginal_row rp s m (order_tab s)"
        by (simp add: marginalized_def)
      have b: "rp' s = rp s" using False by (simp add: keep)
      have c: "rp' (s + 2 ^ m) = rp (s + 2 ^ m)"
        using o g by (simp add: keep)
      have "marginal_row rp' s m (order_tab s) = marginal_row rp s m (order_tab s)"
        using b c by (rule marginal_row_cong)
      with a b show ?thesis by simp
    qed
  qed
qed

lemma order_tab_card: "order_tab i = card (loci i)"
proof -
  have "i < 2 ^ i" by simp
  from card_partitions [OF this] have "(2::nat) ^ order_tab i = 2 ^ card (loci i)"
    by (simp add: card_Pow finite_loci)
  then show ?thesis by simp
qed

lemma order_tab_strict:
  assumes "s < 2 ^ L" "m < L" "\<not> bit s m"
  shows "order_tab s < L"
proof -
  have "loci s \<subseteq> {..<L} - {m}"
    using loci_bounded [OF assms(1)] assms(3) by (auto simp: loci_def)
  then have "card (loci s) \<le> card ({..<L} - {m})"
    by (intro card_mono) simp_all
  also have "\<dots> < L"
    using assms(2) by simp
  finally show ?thesis by (simp add: order_tab_card)
qed

lemma first_zero_le_order:
  assumes "\<forall>k<m. bit s k"
  shows "m \<le> order_tab s"
proof -
  have "{..<m} \<subseteq> loci s"
    using assms by (auto simp: loci_def)
  then have "card {..<m} \<le> card (loci s)"
    by (intro card_mono finite_loci)
  then show ?thesis by (simp add: order_tab_card)
qed

lemma marginalized_full:
  assumes "s < 2 ^ L" "L \<le> order_tab s"
  shows "marginalized L rp s"
  unfolding marginalized_def using order_tab_strict [OF assms(1)] assms(2)
  by (meson not_less)

lemma marginalize_from:
  "d \<le> L \<Longrightarrow> s < 2 ^ L \<Longrightarrow> L - d \<le> order_tab s \<Longrightarrow>
     marginalized L
       (fold (\<lambda>set_size rp.
                fold (\<lambda>s rp. if order_tab s = set_size then marginalize_subset L set_size s rp else rp)
                     [0..<2 ^ L] rp)
             (rev [L - d..<L]) rp0) s"
proof (induction d arbitrary: s)
  case 0
  then show ?case by (simp add: marginalized_full)
next
  case (Suc d)
  let ?pass = "\<lambda>set_size rp.
      fold (\<lambda>s rp. if order_tab s = set_size then marginalize_subset L set_size s rp else rp)
        [0..<2 ^ L] rp"
  define k where "k = L - Suc d"
  have k: "Suc k = L - d" "k < L"
    using Suc.prems(1) by (simp_all add: k_def)
  have "[k..<L] = k # [Suc k..<L]"
    using k(2) by (simp add: upt_conv_Cons)
  then have e: "fold ?pass (rev [k..<L]) rp0 = ?pass k (fold ?pass (rev [L - d..<L]) rp0)"
    by (simp add: k(1))
  have inv: "marginalized L (fold ?pass (rev [L - d..<L]) rp0) t"
    if "t < 2 ^ L" "Suc k \<le> order_tab t" for t
    using that Suc.prems(1) by (intro Suc.IH) (simp_all add: k(1))
  show ?case
    unfolding k_def [symmetric] e
    using Suc.prems(2) Suc.prems(3) [folded k_def]
    by (intro marginalize_pass inv)
qed

lemma marginalize_all_marginalized:
  "s < 2 ^ L \<Longrightarrow> marginalized L (marginalize_all L rp0) s"
  using marginalize_from [of L L s rp0] by (simp add: marginalize_all_def)

lemma and_low_mask: "(r::nat) AND (2 ^ m - 1) = r mod 2 ^ m"
proof -
  have "(2::nat) ^ m - 1 = mask m"
    by (rule mask_eq_exp_minus_1 [symmetric])
  then show ?thesis
    by (simp only: take_bit_eq_mask [symmetric] take_bit_eq_mod)
qed

lemma and_high_mask:
  assumes "r < 2 ^ k" "m \<le> k"
  shows "(r::nat) AND (2 ^ k - 2 ^ m) = 2 ^ m * (r div 2 ^ m)"
proof -
  have "(2::nat) ^ k - 2 ^ m = push_bit m (mask (k - m))"
  proof -
    have "(2::nat) ^ k = 2 ^ m * 2 ^ (k - m)"
      using assms(2) by (simp flip: power_add)
    then show ?thesis
      by (simp add: push_bit_eq_mult mask_eq_exp_minus_1 algebra_simps)
  qed
  moreover have "2 ^ m * (r div 2 ^ m) = push_bit m (drop_bit m r)"
    by (simp add: push_bit_eq_mult drop_bit_eq_div)
  moreover have "r AND push_bit m (mask (k - m)) = push_bit m (drop_bit m r)"
  proof (rule bit_eqI)
    fix j
    have "bit r j \<Longrightarrow> j < k"
      using not_bit_above [OF assms(1), of j] by (auto simp: not_le [symmetric])
    then show "bit (r AND push_bit m (mask (k - m))) j \<longleftrightarrow> bit (push_bit m (drop_bit m r)) j"
      by (auto simp: bit_and_iff bit_push_bit_iff bit_mask_iff bit_drop_bit_eq)
  qed
  ultimately show ?thesis by simp
qed

lemma higher_pattern_eq:
  assumes "r < 2 ^ k" "m \<le> k"
  shows "higher_pattern m k r = r mod 2 ^ m + 2 ^ Suc m * (r div 2 ^ m)"
  unfolding higher_pattern_def and_low_mask and_high_mask [OF assms] push_bit_eq_mult
  by simp

lemma set_recombination_rates_ok:
  assumes "fst (set_recombination_rates nspins_is_null null_rows rec_rates st) = OK"
  shows "\<exists>rp0. recombination_patters (snd (set_recombination_rates nspins_is_null null_rows rec_rates st))
      = marginalize_all (number_of_loci st) rp0"
  using assms
  by (auto simp: set_recombination_rates_def Let_def split: if_splits prod.splits)

lemma bit_higher_pattern:
  fixes r m :: nat
  defines "h \<equiv> r mod 2 ^ m + 2 ^ Suc m * (r div 2 ^ m)"
  shows "bit h j \<longleftrightarrow> (if j < m then bit r j else if j = m then False else bit r (j - 1))"
    and "bit (h + 2 ^ m) j \<longleftrightarrow> (if j < m then bit r j else if j = m then True else bit r (j - 1))"
proof -
  have h: "h = take_bit m r + push_bit (Suc m) (drop_bit m r)"
    by (simp add: h_def take_bit_eq_mod push_bit_eq_mult drop_bit_eq_div)
  have a: "bit h j \<longleftrightarrow> bit (take_bit m r) j \<or> bit (push_bit (Suc m) (drop_bit m r)) j" for j
    unfolding h by (rule bit_disjunctive_add_iff) (auto simp: bit_take_bit_iff bit_push_bit_iff)
  have b: "bit h j \<longleftrightarrow> (if j < m then bit r j else if j = m then False else bit r (j - 1))" for j
  proof -
    consider "j < m" | "j = m" | d where "j = Suc m + d"
      by (metis add_Suc less_imp_Suc_add linorder_neqE_nat)
    then show ?thesis
    proof cases
      case 1
      then show ?thesis
        unfolding a bit_take_bit_iff bit_push_bit_iff by simp
    next
      case 2
      then show ?thesis
        unfolding a bit_take_bit_iff bit_push_bit_iff by simp
    next
      case 3
      have "bit (push_bit (Suc m) (drop_bit m r)) (Suc m + d) \<longleftrightarrow> bit r (m + d)"
        unfolding bit_push_bit_iff by (simp add: bit_drop_bit_eq)
      then show ?thesis
        unfolding a bit_take_bit_iff 3 by simp
    qed
  qed
  show "bit h j \<longleftrightarrow> (if j < m then bit r j else if j = m then False else bit r (j - 1))"
    by (rule b)
  have "\<not> bit h m" by (simp add: b)
  from bit_add_exp [OF this, of j] b [of j]
  show "bit (h + 2 ^ m) j \<longleftrightarrow> (if j < m then bit r j else if j = m then True else bit r (j - 1))"
    by auto
qed

lemma fold_upt_Suc: "fold f [0..<Suc n] z = f n (fold f [0..<n] z)"
  by simp

lemma partition_fold_below:
  assumes "\<forall>k<m. bit s k" "\<forall>k<m. bit s' k" "\<forall>j<m. bit h j = bit r j"
  shows "n \<le> m \<Longrightarrow>
     fold (partition_step s' h) [0..<n] (0, 0, 0) = fold (partition_step s r) [0..<n] (0, 0, 0)
     \<and> fst (fold (partition_step s r) [0..<n] (0, 0, 0)) = n"
proof (induction n)
  case 0
  show ?case by simp
next
  case (Suc n)
  then have n: "n < m" by simp
  obtain c mat pat where q: "fold (partition_step s r) [0..<n] (0, 0, 0) = (c, mat, pat)"
    by (cases "fold (partition_step s r) [0..<n] (0, 0, 0)")
  from Suc.IH n q have q': "fold (partition_step s' h) [0..<n] (0, 0, 0) = (c, mat, pat)" and c: "c = n"
    by simp_all
  from assms n have "bit s n" "bit s' n" "bit h n = bit r n" by simp_all
  then show ?case
    by (simp add: q q' c partition_step_bit)
qed

lemma partition_fold_above:
  assumes nb: "\<not> bit s m" and low: "\<forall>k<m. bit s k"
    and hb: "\<And>j. bit h j \<longleftrightarrow> (if j < m then bit r j else if j = m then b else bit r (j - 1))"
  shows "case fold (partition_step s r) [0..<Suc m + d] (0, 0, 0) of
      (c, mat, pat) \<Rightarrow>
        m \<le> c \<and> fold (partition_step (s + 2 ^ m) h) [0..<Suc m + d] (0, 0, 0)
          = (Suc c, if b then mat + 2 ^ m else mat, if b then pat else pat + 2 ^ m)"
proof (induction d)
  case 0
  obtain c mat pat where q: "fold (partition_step s r) [0..<m] (0, 0, 0) = (c, mat, pat)"
    by (cases "fold (partition_step s r) [0..<m] (0, 0, 0)")
  have low': "\<forall>k<m. bit (s + 2 ^ m) k"
    using low by (simp add: bit_add_exp [OF nb])
  have hl: "\<forall>j<m. bit h j = bit r j"
    by (simp add: hb)
  from partition_fold_below [OF low low' hl, of m] q
  have q': "fold (partition_step (s + 2 ^ m) h) [0..<m] (0, 0, 0) = (c, mat, pat)" and c: "c = m"
    by simp_all
  have "bit (s + 2 ^ m) m" "bit h m = b"
    by (simp_all add: bit_add_exp [OF nb] hb)
  then show ?case
    using nb by (simp add: q q' c partition_step_bit)
next
  case (Suc d)
  let ?k = "Suc (m + d)"
  obtain c mat pat where q: "fold (partition_step s r) [0..<?k] (0, 0, 0) = (c, mat, pat)"
    by (cases "fold (partition_step s r) [0..<?k] (0, 0, 0)")
  from Suc.IH q have c: "m \<le> c"
    and q': "fold (partition_step (s + 2 ^ m) h) [0..<?k] (0, 0, 0)
        = (Suc c, if b then mat + 2 ^ m else mat, if b then pat else pat + 2 ^ m)"
    by simp_all
  have s: "bit (s + 2 ^ m) ?k = bit s ?k"
    by (simp add: bit_add_exp [OF nb])
  have h: "bit h (Suc c) = bit r c"
    using c by (simp add: hb)
  have "fold (partition_step s r) [0..<Suc m + Suc d] (0, 0, 0) = partition_step s r ?k (c, mat, pat)"
    unfolding add_Suc_right add_Suc by (subst fold_upt_Suc) (simp only: q)
  moreover have "fold (partition_step (s + 2 ^ m) h) [0..<Suc m + Suc d] (0, 0, 0)
      = partition_step (s + 2 ^ m) h ?k (Suc c, if b then mat + 2 ^ m else mat, if b then pat else pat + 2 ^ m)"
    unfolding add_Suc_right add_Suc by (subst fold_upt_Suc) (simp only: q')
  ultimately show ?case
    using c by (simp add: partition_step_bit s h)
qed

lemma partition_masks_extend:
  fixes r m s L :: nat
  assumes "m < L" "\<not> bit s m" "\<forall>k<m. bit s k"
  defines "h \<equiv> r mod 2 ^ m + 2 ^ Suc m * (r div 2 ^ m)"
  shows "partition_masks L (s + 2 ^ m) h
      = (fst (partition_masks L s r), snd (partition_masks L s r) + 2 ^ m)"
    and "partition_masks L (s + 2 ^ m) (h + 2 ^ m)
      = (fst (partition_masks L s r) + 2 ^ m, snd (partition_masks L s r))"
proof -
  from assms(1) obtain d where L: "L = Suc m + d"
    by (metis add_Suc less_imp_Suc_add)
  obtain c mat pat where q: "fold (partition_step s r) [0..<L] (0, 0, 0) = (c, mat, pat)"
    by (cases "fold (partition_step s r) [0..<L] (0, 0, 0)")
  from partition_fold_above [OF assms(2,3), of h r False d] bit_higher_pattern(1) [of r m] q
  show "partition_masks L (s + 2 ^ m) h
      = (fst (partition_masks L s r), snd (partition_masks L s r) + 2 ^ m)"
    unfolding h_def L partition_masks_def by simp
  from partition_fold_above [OF assms(2,3), of "h + 2 ^ m" r True d] bit_higher_pattern(2) [of r m] q
  show "partition_masks L (s + 2 ^ m) (h + 2 ^ m)
      = (fst (partition_masks L s r) + 2 ^ m, snd (partition_masks L s r))"
    unfolding h_def L partition_masks_def by simp
qed

text \<open>
  C2. After \<^verbatim>\<open>set_recombination_rates(rec_rates)\<close> has returned 0, let \<open>s\<close> be a strict
  locus subset, \<open>m\<close> the lowest locus absent from \<open>s\<close> and \<open>r\<close> a partition pattern of
  \<open>s\<close>. Then the entry \<open>r\<close> of the row of \<open>s\<close> is the sum of two entries of the row of
  \<open>s + 2 ^ m\<close>, the subset of the next order with the locus \<open>m\<close> added: those of the
  patterns \<open>h\<close> and \<open>h + 2 ^ m\<close>, where \<open>h\<close> keeps the bits of \<open>r\<close> below \<open>m\<close>, has bit
  \<open>m\<close> clear and has the other bits of \<open>r\<close> moved up by one. Read as partitions
  (with \<^verbatim>\<open>partition_masks\<close>, the bookkeeping of the recombination loops), \<open>h\<close>
  is the partition \<open>r\<close> with the locus \<open>m\<close> given to the father and \<open>h + 2 ^ m\<close> the one
  with the locus \<open>m\<close> given to the mother.
\<close>

theorem pattern_table_marginalization:
  fixes st :: "'r haploid_gt_dis" and nspins_is_null :: bool and null_rows :: nat
    and rec_rates :: "nat \<Rightarrow> real" and s m r :: nat
  defines "L \<equiv> number_of_loci st"
    and "rp \<equiv> recombination_patters (snd (set_recombination_rates nspins_is_null null_rows rec_rates st))"
    and "h \<equiv> r mod 2 ^ m + 2 ^ Suc m * (r div 2 ^ m)"
  assumes ok: "fst (set_recombination_rates nspins_is_null null_rows rec_rates st) = OK"
    and s: "s < 2 ^ L"
    and m: "m < L" "\<not> bit s m" "\<forall>k<m. bit s k"
    and r: "r < 2 ^ order_tab s"
  shows "rp s r = rp (s + 2 ^ m) h + rp (s + 2 ^ m) (h + 2 ^ m)
    \<and> order_tab (s + 2 ^ m) = Suc (order_tab s)
    \<and> partition_masks L (s + 2 ^ m) h
        = (fst (partition_masks L s r), snd (partition_masks L s r) + 2 ^ m)
    \<and> partition_masks L (s + 2 ^ m) (h + 2 ^ m)
        = (fst (partition_masks L s r) + 2 ^ m, snd (partition_masks L s r))"
proof -
  from set_recombination_rates_ok [OF ok] obtain rp0 where rp: "rp = marginalize_all L rp0"
    unfolding rp_def L_def by blast
  have "marginalized L rp s"
    unfolding rp using s by (rule marginalize_all_marginalized)
  with m have "rp s = marginal_row rp s m (order_tab s)"
    by (simp add: marginalized_def)
  then have "rp s r = marginal_row rp s m (order_tab s) r"
    by simp
  also have "\<dots> = rp (s + 2 ^ m) (higher_pattern m (order_tab s) r)
      + rp (s + 2 ^ m) (higher_pattern m (order_tab s) r + 2 ^ m)"
    using r by (simp add: marginal_row_def)
  finally have a: "rp s r = rp (s + 2 ^ m) h + rp (s + 2 ^ m) (h + 2 ^ m)"
    unfolding h_def by (simp only: higher_pattern_eq [OF r first_zero_le_order [OF m(3)]])
  have b: "order_tab (s + 2 ^ m) = Suc (order_tab s)"
    using m(2) by (simp add: order_tab_add_exp)
  from a b partition_masks_extend [OF m, of r] show ?thesis
    unfolding h_def by simp
qed

theorem pattern_table_marginalization_witness:
  "recombination_patters (snd (set_recombination_rates False 0 (\<lambda>l. 1)
       ((example_engine (\<lambda>i. 1 / 4) (\<lambda>i. 0) (\<lambda>fb l. 0))\<lparr>number_of_loci := 2\<rparr>))) 1 1
   = recombination_patters (snd (set_recombination_rates False 0 (\<lambda>l. 1)
       ((example_engine (\<lambda>i. 1 / 4) (\<lambda>i. 0) (\<lambda>fb l. 0))\<lparr>number_of_loci := 2\<rparr>))) 3 1
   + recombination_patters (snd (set_recombination_rates False 0 (\<lambda>l. 1)
       ((example_engine (\<lambda>i. 1 / 4) (\<lambda>i. 0) (\<lambda>fb l. 0))\<lparr>number_of_loci := 2\<rparr>))) 3 3"
proof -
  let ?E = "(example_engine (\<lambda>i. 1 / 4) (\<lambda>i. 0) (\<lambda>fb l. 0))\<lparr>number_of_loci := 2\<rparr>"
  have ok: "fst (set_recombination_rates False 0 (\<lambda>l. 1) ?E) = OK"
    by (simp add: set_recombination_rates_def Let_def split: prod.splits)
  have s: "(1::nat) < 2 ^ number_of_loci ?E" and m: "(1::nat) < number_of_loci ?E"
    by simp_all
  have nb: "\<not> bit (1::nat) 1" and low: "\<forall>k<1. bit (1::nat) k"
    by (simp_all add: bit_Suc_0_iff)
  have r: "(1::nat) < 2 ^ order_tab 1"
    by (simp add: order_tab_1)
  from pattern_table_marginalization [OF ok s m nb low r]
  show ?thesis
    by (simp add: eval_nat_numeral)
qed

section \<open>The operators keep the total mass\<close>

lemma bit_imp_below: "i < 2 ^ L \<Longrightarrow> bit (i::nat) k \<Longrightarrow> k < L"
  using not_bit_above [of i L k] by (auto simp: not_le [symmetric])

lemma add_exp_less:
  assumes "i < 2 ^ L" "l < L" "\<not> bit (i::nat) l"
  shows "i + 2 ^ l < 2 ^ L"
proof -
  have "take_bit L (i + 2 ^ l) = i + 2 ^ l"
  proof (rule bit_eqI)
    fix j
    show "bit (take_bit L (i + 2 ^ l)) j \<longleftrightarrow> bit (i + 2 ^ l) j"
      using assms(2) bit_imp_below [OF assms(1), of j]
      by (auto simp: bit_take_bit_iff bit_add_exp [OF assms(3)])
  qed
  then show ?thesis
    by (simp only: take_bit_nat_eq_self_iff)
qed

lemma bit_imp_ge: "bit (i::nat) l \<Longrightarrow> 2 ^ l \<le> i"
  using not_bit_above [of i l l] by (auto simp: not_le [symmetric])

lemma not_bit_diff_exp:
  assumes "bit (i::nat) l"
  shows "\<not> bit (i - 2 ^ l) l"
proof -
  from assms have ge: "2 ^ l \<le> i" by (rule bit_imp_ge)
  then have "i div 2 ^ l = Suc ((i - 2 ^ l) div 2 ^ l)"
    by (intro le_div_geq) simp_all
  moreover from assms have "odd (i div 2 ^ l)" by (simp add: bit_iff_odd)
  ultimately have "even ((i - 2 ^ l) div 2 ^ l)" by simp
  then show ?thesis by (simp add: bit_iff_odd)
qed

lemma set_bit_image:
  assumes "l < L"
  shows "{i. i < 2 ^ L \<and> bit (i::nat) l} = (\<lambda>i. i + 2 ^ l) ` {i. i < 2 ^ L \<and> \<not> bit i l}"
proof (rule set_eqI, rule iffI)
  fix i :: nat
  assume "i \<in> {i. i < 2 ^ L \<and> bit i l}"
  then have i: "i < 2 ^ L" "bit i l" by simp_all
  from i(2) have ge: "2 ^ l \<le> i" by (rule bit_imp_ge)
  have "i - 2 ^ l < 2 ^ L" using i(1) by simp
  moreover have "\<not> bit (i - 2 ^ l) l" using i(2) by (rule not_bit_diff_exp)
  moreover have "i = (i - 2 ^ l) + 2 ^ l" using ge by simp
  ultimately show "i \<in> (\<lambda>i. i + 2 ^ l) ` {i. i < 2 ^ L \<and> \<not> bit i l}"
    by blast
next
  fix i :: nat
  assume "i \<in> (\<lambda>i. i + 2 ^ l) ` {i. i < 2 ^ L \<and> \<not> bit i l}"
  then obtain i' where i': "i = i' + 2 ^ l" "i' < 2 ^ L" "\<not> bit i' l" by blast
  then show "i \<in> {i. i < 2 ^ L \<and> bit i l}"
    using assms by (simp add: add_exp_less bit_add_exp)
qed

lemma mutation_flow_balance:
  fixes p :: "nat \<Rightarrow> real"
  assumes "l < L"
  shows "(\<Sum>i<2 ^ L. if bit i l then fwd * p (i - 2 ^ l) - back * p i
                      else back * p (i + 2 ^ l) - fwd * p i) = 0"
proof -
  let ?S0 = "{i::nat. i < 2 ^ L \<and> \<not> bit i l}"
  let ?S1 = "{i::nat. i < 2 ^ L \<and> bit i l}"
  let ?g = "\<lambda>i. if bit i l then fwd * p (i - 2 ^ l) - back * p i
                 else back * p (i + 2 ^ l) - fwd * p i"
  have u: "{..<(2::nat) ^ L} = ?S0 \<union> ?S1" by auto
  have d: "?S0 \<inter> ?S1 = {}" by auto
  have f: "finite ?S0" "finite ?S1" by simp_all
  have "sum ?g {..<2 ^ L} = sum ?g ?S0 + sum ?g ?S1"
    unfolding u using f d by (rule sum.union_disjoint)
  also have "sum ?g ?S1 = sum ?g ((\<lambda>i. i + 2 ^ l) ` ?S0)"
    by (simp only: set_bit_image [OF assms])
  also have "\<dots> = (\<Sum>i\<in>?S0. ?g (i + 2 ^ l))"
    by (subst sum.reindex) (simp_all add: inj_on_def)
  also have "\<dots> = (\<Sum>i\<in>?S0. fwd * p i - back * p (i + 2 ^ l))"
    by (rule sum.cong) (simp_all add: bit_add_exp)
  also have "sum ?g ?S0 = (\<Sum>i\<in>?S0. back * p (i + 2 ^ l) - fwd * p i)"
    by (rule sum.cong) simp_all
  also have "(\<Sum>i\<in>?S0. back * p (i + 2 ^ l) - fwd * p i) + (\<Sum>i\<in>?S0. fwd * p i - back * p (i + 2 ^ l)) = 0"
    by (simp flip: sum.distrib)
  finally show ?thesis .
qed

lemma mutate_population:
  "func (population (snd (mutate st))) =
     (\<lambda>i. if i < 2 ^ number_of_loci st
          then func (population st) i
               + (\<Sum>l<number_of_loci st.
                    if bit i l
                    then mutation_rates st 0 l * func (population st) (i - 2 ^ l)
                         - mutation_rates st 1 l * func (population st) i
                    else mutation_rates st 1 l * func (population st) (i + 2 ^ l)
                         - mutation_rates st 0 l * func (population st) i)
          else func (population st) i)"
  by (simp add: mutate_def Let_def set_state_def mutate_add_eq mutate_fill_eq mutate_locus_def
      and_exp_eq_0_iff_not_bit cong: if_cong)

lemma mutate_keeps_mass:
  "(\<Sum>i<2 ^ number_of_loci st. func (population (snd (mutate st))) i)
     = (\<Sum>i<2 ^ number_of_loci st. func (population st) i)"
proof -
  let ?L = "number_of_loci st"
  let ?flow = "\<lambda>i l. if bit i l
      then mutation_rates st 0 l * func (population st) (i - 2 ^ l)
           - mutation_rates st 1 l * func (population st) i
      else mutation_rates st 1 l * func (population st) (i + 2 ^ l)
           - mutation_rates st 0 l * func (population st) i"
  have "(\<Sum>i<2 ^ ?L. func (population (snd (mutate st))) i)
      = (\<Sum>i<2 ^ ?L. func (population st) i + (\<Sum>l<?L. ?flow i l))"
    by (rule sum.cong) (simp_all add: mutate_population)
  also have "\<dots> = (\<Sum>i<2 ^ ?L. func (population st) i) + (\<Sum>i<2 ^ ?L. \<Sum>l<?L. ?flow i l)"
    by (rule sum.distrib)
  also have "(\<Sum>i<2 ^ ?L. \<Sum>l<?L. ?flow i l) = (\<Sum>l<?L. \<Sum>i<2 ^ ?L. ?flow i l)"
    by (rule sum.swap)
  also have "\<dots> = 0"
    by (rule sum.neutral) (simp add: mutation_flow_balance)
  finally show ?thesis by simp
qed

lemma walsh_Suc:
  "walsh (Suc L) i g = walsh L i g * (if bit i L \<and> \<not> bit g L then - 1 else 1)"
  by (simp add: walsh_def)

lemma walsh_cong:
  "(\<And>k. k < L \<Longrightarrow> bit g k = bit g' k) \<Longrightarrow> walsh L i g = walsh L i g'"
  unfolding walsh_def by (rule prod.cong) simp_all

lemma walsh_sum:
  "i < 2 ^ L \<Longrightarrow> (\<Sum>g<2 ^ L. walsh L i g) = (if i = 0 then 2 ^ L else 0)"
proof (induction L arbitrary: i)
  case 0
  then show ?case by (simp add: walsh_def)
next
  case (Suc L)
  define s :: real where "s = (if bit i L then - 1 else 1)"
  have low: "walsh (Suc L) i g = walsh L i g * s" if "g < 2 ^ L" for g
  proof -
    have "\<not> bit g L" using that by (rule not_bit_above) simp
    then show ?thesis by (simp add: walsh_Suc s_def)
  qed
  have high: "walsh (Suc L) i (g + 2 ^ L) = walsh L i g" if "g < 2 ^ L" for g
  proof -
    have n: "\<not> bit g L" using that by (rule not_bit_above) simp
    have "walsh L i (g + 2 ^ L) = walsh L i g"
      by (rule walsh_cong) (simp add: bit_add_exp [OF n])
    then show ?thesis by (simp add: walsh_Suc bit_add_exp [OF n])
  qed
  have "(\<Sum>g<2 ^ Suc L. walsh (Suc L) i g)
      = (\<Sum>g<2 ^ L. walsh (Suc L) i g) + (\<Sum>g<2 ^ L. walsh (Suc L) i (g + 2 ^ L))"
    by (rule sum_split_halves)
  also have "\<dots> = (\<Sum>g<2 ^ L. walsh L i g * s) + (\<Sum>g<2 ^ L. walsh L i g)"
    using low high by simp
  also have "(\<Sum>g<2 ^ L. walsh L i g * s) = (\<Sum>g<2 ^ L. walsh L i g) * s"
    by (rule sum_distrib_right [symmetric])
  also have "(\<Sum>g<2 ^ L. walsh L i g) * s + (\<Sum>g<2 ^ L. walsh L i g)
      = (s + 1) * (\<Sum>g<2 ^ L. walsh L i g)"
    by (simp add: distrib_right mult.commute)
  finally have e: "(\<Sum>g<2 ^ Suc L. walsh (Suc L) i g) = (s + 1) * (\<Sum>g<2 ^ L. walsh L i g)" .
  show ?case
  proof (cases "bit i L")
    case True
    then have "2 ^ L \<le> i" by (rule bit_imp_ge)
    moreover have "(0::nat) < 2 ^ L" by simp
    ultimately have "i \<noteq> 0" by linarith
    with True show ?thesis unfolding e by (simp add: s_def)
  next
    case False
    with Suc.prems have "i < 2 ^ L" by (rule top_bit_clear)
    from Suc.IH [OF this] False show ?thesis unfolding e by (simp add: s_def)
  qed
qed

lemma walsh_coeff_to_func_mass:
  "(\<Sum>g<2 ^ dimension h. func (walsh_coeff_to_func h) g) = 2 ^ dimension h * coeff h 0"
proof -
  let ?L = "dimension h"
  have "(\<Sum>g<2 ^ ?L. func (walsh_coeff_to_func h) g)
      = (\<Sum>g<2 ^ ?L. \<Sum>i<2 ^ ?L. coeff h i * walsh ?L i g)"
    by (rule sum.cong) (simp_all add: walsh_coeff_to_func_def)
  also have "\<dots> = (\<Sum>i<2 ^ ?L. \<Sum>g<2 ^ ?L. coeff h i * walsh ?L i g)"
    by (rule sum.swap)
  also have "\<dots> = (\<Sum>i<2 ^ ?L. coeff h i * (if i = 0 then 2 ^ ?L else 0))"
    by (rule sum.cong) (simp_all add: sum_distrib_left [symmetric] walsh_sum)
  also have "\<dots> = 2 ^ ?L * coeff h 0"
    by (simp add: if_distrib [of "\<lambda>x. _ * x"] sum.delta' cong: if_cong)
  finally show ?thesis .
qed

lemma walsh_func_to_coeff_func: "func (walsh_func_to_coeff h) = func h"
  by (simp add: walsh_func_to_coeff_def)

lemma walsh_coeff_to_func_dimension: "dimension (walsh_coeff_to_func h) = dimension h"
  by (simp add: walsh_coeff_to_func_def)

lemma recombinant_coeff_general_eq:
  "recombinant_coeff_general L rp pc i c =
     c(i := (\<Sum>j<2 ^ order_tab i. rp i j * pc (fst (partition_masks L i j)) * pc (snd (partition_masks L i j)))
            * 2 ^ L)"
proof -
  have "fold (\<lambda>j c. let (maternal_alleles, paternal_alleles) = partition_masks L i j
                     in c(i := c i + rp i j * pc maternal_alleles * pc paternal_alleles))
          [0..<2 ^ order_tab i] (c(i := 0))
      = (c(i := 0))(i := (c(i := 0)) i
          + (\<Sum>j<2 ^ order_tab i. rp i j * pc (fst (partition_masks L i j)) * pc (snd (partition_masks L i j))))"
    by (simp add: case_prod_beta fold_accum_at)
  then show ?thesis
    by (simp add: recombinant_coeff_general_def Let_def)
qed

lemma recombinant_coeffs_general_0:
  "fold (recombinant_coeff_general L rp pc) [Suc 0..<n] c0 0 = c0 0"
proof -
  have "fold (recombinant_coeff_general L rp pc) [Suc 0..<n] c0 =
      fold (\<lambda>i c. c(i := (\<Sum>j<2 ^ order_tab i. rp i j * pc (fst (partition_masks L i j))
                              * pc (snd (partition_masks L i j))) * 2 ^ L)) [Suc 0..<n] c0"
    by (rule fold_cong) (auto simp: recombinant_coeff_general_eq intro!: ext)
  then show ?thesis
    by (simp add: fold_upd_indep_from)
qed

lemma recombinant_coeffs_free_0:
  "fold (recombinant_coeff_free L pc) [Suc 0..<2 ^ L] c0 0 = c0 0"
  by (simp add: recombinant_coeffs_free_eq)

lemma fold_blend:
  fixes p0 r :: "nat \<Rightarrow> real"
  shows "fold (\<lambda>i p. p(i := p i + a * (r i - p i))) [0..<n] p0
     = (\<lambda>i. if i < n then p0 i + a * (r i - p0 i) else p0 i)"
  by (rule fold_upd_pointwise [where g = "\<lambda>i x. x + a * (r i - x)"])

lemma recombine_population_free:
  fixes ext :: "'r externals" and st :: "'r haploid_gt_dis"
  defines "L \<equiv> number_of_loci st"
    and "pop1 \<equiv> fft_func_to_coeff ext (population st)"
  assumes free: "free_recombination st"
  shows "\<exists>c. c 0 = 1 / 2 ^ L
      \<and> func (population (snd (recombine ext st)))
          = (\<lambda>i. if i < 2 ^ L
                 then func pop1 i + outcrossing_rate st
                      * (func (fft_coeff_to_func ext ((recombinants st)\<lparr>state := HC_COEFF, coeff := c\<rparr>)) i
                         - func pop1 i)
                 else func pop1 i)"
proof -
  let ?c = "fold (recombinant_coeff_free L (coeff pop1)) [Suc 0..<2 ^ L]
      ((coeff (recombinants st))(0 := 1 / 2 ^ L))"
  let ?rec1 = "fft_coeff_to_func ext ((recombinants st)\<lparr>state := HC_COEFF, coeff := ?c\<rparr>)"
  have "?c 0 = 1 / 2 ^ L"
    by (simp add: recombinant_coeffs_free_0)
  moreover have "func (population (snd (recombine ext st)))
      = (\<lambda>i. if i < 2 ^ L then func pop1 i + outcrossing_rate st * (func ?rec1 i - func pop1 i)
              else func pop1 i)"
    using free
    by (simp add: recombine_def calculate_recombinants_def calculate_recombinants_free_def
        Let_def set_state_def L_def pop1_def fold_blend cong: if_cong)
  ultimately show ?thesis
    by (intro exI [of _ ?c] conjI)
qed

lemma recombine_population_general:
  fixes ext :: "'r externals" and st :: "'r haploid_gt_dis"
  defines "L \<equiv> number_of_loci st"
  assumes general: "\<not> free_recombination st"
  shows "\<exists>c. c 0 = 1 / 2 ^ L
      \<and> func (population (snd (recombine ext st)))
          = (\<lambda>i. if i < 2 ^ L
                 then func (fft_coeff_to_func ext ((recombinants st)\<lparr>state := HC_COEFF, coeff := c\<rparr>)) i
                 else func (fft_func_to_coeff ext (population st)) i)"
proof -
  let ?pop1 = "fft_func_to_coeff ext (population st)"
  let ?c = "fold (recombinant_coeff_general L (recombination_patters st) (coeff ?pop1)) [Suc 0..<2 ^ L]
      ((coeff (recombinants st))(0 := 1 / 2 ^ L))"
  let ?rec1 = "fft_coeff_to_func ext ((recombinants st)\<lparr>state := HC_COEFF, coeff := ?c\<rparr>)"
  have "?c 0 = 1 / 2 ^ L"
    by (simp add: recombinant_coeffs_general_0)
  moreover have "func (population (snd (recombine ext st)))
      = (\<lambda>i. if i < 2 ^ L then func ?rec1 i else func ?pop1 i)"
    using general
    by (simp add: recombine_def calculate_recombinants_def calculate_recombinants_general_def
        Let_def set_state_def L_def fold_upd_indep cong: if_cong)
  ultimately show ?thesis
    by (intro exI [of _ ?c] conjI)
qed

lemma number_of_loci_kept:
  "number_of_loci (snd (select st)) = number_of_loci st"
  "number_of_loci (snd (mutate st)) = number_of_loci st"
  "number_of_loci (snd (recombine ext st)) = number_of_loci st"
  by (simp_all add: select_def mutate_def recombine_def calculate_recombinants_def
      calculate_recombinants_free_def calculate_recombinants_general_def Let_def
      split: prod.splits)

lemma select_population:
  assumes "dimension (population st) = number_of_loci st"
  shows "func (population (snd (select st))) =
     (\<lambda>i. if i < 2 ^ number_of_loci st
          then func (population st) i * exp (func (fitness st) i)
               * (1 / (\<Sum>j<2 ^ number_of_loci st. func (population st) j * exp (func (fitness st) j)))
          else func (population st) i)"
  using assms
  by (simp add: select_def select_loop_eq set_state_def scale_def Let_def cong: if_cong)

lemma select_keeps_mass:
  assumes "dimension (population st) = number_of_loci st"
    and "(\<Sum>j<2 ^ number_of_loci st. func (population st) j * exp (func (fitness st) j)) \<noteq> 0"
  shows "total_mass (snd (select st)) = 1"
proof -
  let ?L = "number_of_loci st"
  let ?w = "\<lambda>j. func (population st) j * exp (func (fitness st) j)"
  have "total_mass (snd (select st)) = (\<Sum>i<2 ^ ?L. ?w i / sum ?w {..<2 ^ ?L})"
    unfolding total_mass_def number_of_loci_kept
    by (rule sum.cong) (simp_all add: select_population [OF assms(1)])
  also have "\<dots> = sum ?w {..<2 ^ ?L} / sum ?w {..<2 ^ ?L}"
    by (rule sum_divide_distrib [symmetric])
  finally show ?thesis using assms(2) by simp
qed

lemma select_norm_positive:
  fixes p f :: "nat \<Rightarrow> real"
  assumes "(\<Sum>i<n. p i) = 1" and "\<forall>i<n. 0 \<le> p i"
  shows "(\<Sum>j<n. p j * exp (f j)) \<noteq> 0"
proof
  assume z: "(\<Sum>j<n. p j * exp (f j)) = 0"
  have "\<forall>j\<in>{..<n}. p j * exp (f j) = 0"
    using assms(2) z by (subst (asm) sum_nonneg_eq_0_iff) simp_all
  then have "\<forall>j\<in>{..<n}. p j = 0" by simp
  then have "(\<Sum>i<n. p i) = 0" by simp
  with assms(1) show False by simp
qed

lemma recombine_keeps_mass:
  assumes one: "total_mass st = 1"
    and dimR: "dimension (recombinants st) = number_of_loci st"
    and fwd: "func (fft_func_to_coeff ext (population st)) = func (population st)"
    and bwd: "\<And>h. (\<Sum>g<2 ^ dimension h. func (fft_coeff_to_func ext h) g) = 2 ^ dimension h * coeff h 0"
  shows "total_mass (snd (recombine ext st)) = 1"
proof -
  let ?L = "number_of_loci st"
  have rec_mass: "(\<Sum>g<2 ^ ?L. func (fft_coeff_to_func ext ((recombinants st)\<lparr>state := HC_COEFF, coeff := c\<rparr>)) g) = 1"
    if "c 0 = 1 / 2 ^ ?L" for c
    using bwd [of "(recombinants st)\<lparr>state := HC_COEFF, coeff := c\<rparr>"] dimR that by simp
  have p_mass: "(\<Sum>i<2 ^ ?L. func (population st) i) = 1"
    using one by (simp add: total_mass_def)
  show ?thesis
  proof (cases "free_recombination st")
    case True
    from recombine_population_free [OF True, of ext] obtain c where c: "c 0 = 1 / 2 ^ ?L"
      and f: "func (population (snd (recombine ext st)))
          = (\<lambda>i. if i < 2 ^ ?L
                 then func (population st) i + outcrossing_rate st
                      * (func (fft_coeff_to_func ext ((recombinants st)\<lparr>state := HC_COEFF, coeff := c\<rparr>)) i
                         - func (population st) i)
                 else func (population st) i)"
      unfolding fwd by blast
    let ?r = "func (fft_coeff_to_func ext ((recombinants st)\<lparr>state := HC_COEFF, coeff := c\<rparr>))"
    have "total_mass (snd (recombine ext st))
        = (\<Sum>i<2 ^ ?L. func (population st) i + outcrossing_rate st * (?r i - func (population st) i))"
      unfolding total_mass_def number_of_loci_kept
      by (rule sum.cong) (simp_all add: f)
    also have "\<dots> = (\<Sum>i<2 ^ ?L. func (population st) i)
        + (\<Sum>i<2 ^ ?L. outcrossing_rate st * (?r i - func (population st) i))"
      by (rule sum.distrib)
    also have "(\<Sum>i<2 ^ ?L. outcrossing_rate st * (?r i - func (population st) i))
        = outcrossing_rate st * (\<Sum>i<2 ^ ?L. ?r i - func (population st) i)"
      by (rule sum_distrib_left [symmetric])
    also have "(\<Sum>i<2 ^ ?L. ?r i - func (population st) i)
        = (\<Sum>i<2 ^ ?L. ?r i) - (\<Sum>i<2 ^ ?L. func (population st) i)"
      by (rule sum_subtractf)
    finally show ?thesis
      using rec_mass [of c] c by (simp add: p_mass)
  next
    case False
    from recombine_population_general [OF False, of ext] obtain c where c: "c 0 = 1 / 2 ^ ?L"
      and f: "func (population (snd (recombine ext st)))
          = (\<lambda>i. if i < 2 ^ ?L
                 then func (fft_coeff_to_func ext ((recombinants st)\<lparr>state := HC_COEFF, coeff := c\<rparr>)) i
                 else func (fft_func_to_coeff ext (population st)) i)"
      by blast
    have "total_mass (snd (recombine ext st))
        = (\<Sum>i<2 ^ ?L. func (fft_coeff_to_func ext ((recombinants st)\<lparr>state := HC_COEFF, coeff := c\<rparr>)) i)"
      unfolding total_mass_def number_of_loci_kept
      by (rule sum.cong) (simp_all add: f)
    then show ?thesis
      using rec_mass [of c] c by simp
  qed
qed

lemma example_engine_dimensions:
  "dimension (recombinants (example_engine p f rates)) = number_of_loci (example_engine p f rates)"
  "dimension (population (example_engine p f rates)) = number_of_loci (example_engine p f rates)"
  by (simp_all add: example_engine_def example_cube_def)

lemma spec_transforms_fields:
  "fft_func_to_coeff (spec_transforms ext) = walsh_func_to_coeff"
  "fft_coeff_to_func (spec_transforms ext) = walsh_coeff_to_func"
  by (simp_all add: spec_transforms_def)

lemma resample_keeps_mass:
  fixes ext :: "'r externals" and st :: "'r haploid_gt_dis" and n :: real
  defines "N \<equiv> (if n < 1 then population_size st else n)"
  assumes dim: "dimension (population st) = number_of_loci st"
    and size: "0 < N"
    and cutoff: "0 \<le> HG_CONTINUOUS ext"
    and eps: "0 < HG_NOTHING ext"
  shows "\<exists>code st'. resample ext n st = Some (code, st') \<and> (code \<noteq> HG_EXTINCT \<longrightarrow> total_mass st' = 1)"
proof -
  define q where "q = (\<lambda>i.
      if func (population st) i < HG_CONTINUOUS ext / N
      then real (fst (gsl_ran_poisson ext (rng_at ext N (func (population st)) (rng st) i)
                        (N * func (population st) i))) / N
      else func (population st) i
           + fst (gsl_ran_gaussian ext (rng_at ext N (func (population st)) (rng st) i)
                    (sqrt (func (population st) i / N))))"
  define mass where "mass = (\<Sum>i<2 ^ number_of_loci st. q i)"
  have r: "resample ext n st = resample_with ext N st"
    by (simp add: resample_def N_def)
  have reals: "\<not> (N = 0 \<or> (\<exists>i<2 ^ number_of_loci st.
      \<not> func (population st) i < HG_CONTINUOUS ext / N \<and> func (population st) i / N < 0))"
    using size resample_in_reals [OF size cutoff] by simp
  have w: "resample_with ext N st =
     (if mass < HG_NOTHING ext
      then Some (HG_EXTINCT,
            st\<lparr>population := (population st)\<lparr>state := HC_FUNC,
                                  func := (\<lambda>i. if i < 2 ^ number_of_loci st then q i
                                               else func (population st) i)\<rparr>,
               rng := rng_at ext N (func (population st)) (rng st) (2 ^ number_of_loci st)\<rparr>)
      else if mass = 0 then None
      else Some (OK,
            st\<lparr>population := (population st)\<lparr>state := HC_FUNC,
                                  func := (\<lambda>i. if i < 2 ^ number_of_loci st then q i * (1 / mass)
                                               else func (population st) i)\<rparr>,
               rng := rng_at ext N (func (population st)) (rng st) (2 ^ number_of_loci st)\<rparr>))"
    using reals unfolding mass_def q_def
    by (simp only: resample_with_eq [OF dim] if_False)
  show ?thesis
  proof (cases "mass < HG_NOTHING ext")
    case True
    then show ?thesis by (simp add: r w)
  next
    case False
    with eps have nz: "mass \<noteq> 0" by simp
    let ?st' = "st\<lparr>population := (population st)\<lparr>state := HC_FUNC,
                                  func := (\<lambda>i. if i < 2 ^ number_of_loci st then q i * (1 / mass)
                                               else func (population st) i)\<rparr>,
               rng := rng_at ext N (func (population st)) (rng st) (2 ^ number_of_loci st)\<rparr>"
    have s: "resample ext n st = Some (OK, ?st')"
      using False nz by (simp add: r w)
    have "total_mass ?st' = (\<Sum>i<2 ^ number_of_loci st. q i / mass)"
      unfolding total_mass_def by (rule sum.cong) simp_all
    also have "\<dots> = mass / mass"
      unfolding mass_def by (rule sum_divide_distrib [symmetric])
    finally have "total_mass ?st' = 1"
      using nz by simp
    then show ?thesis using s by simp
  qed
qed

lemma example_resample_alive:
  "map_option fst (resample example_externals 0
       (example_engine (\<lambda>i. if i = 0 then 1 / 4 else 3 / 4) f rates)) = Some OK"
proof -
  let ?E = "example_engine (\<lambda>i. if i = 0 then 1 / 4 else 3 / 4) f rates"
  note w = resample_with_eq [OF example_engine_dimensions(2), of example_externals 1000 _ f rates,
      unfolded example_engine_fields example_engine_more sum_lessThan_2 power_one_right]
  have "resample example_externals 0 ?E = resample_with example_externals 1000 ?E"
    by (simp add: resample_def example_engine_more)
  then show ?thesis
    unfolding w by (simp add: example_externals_def numeral_2_eq_2)
qed

text \<open>
  C4, as the code has it. Let the \<^verbatim>\<open>func\<close> values of the population sum to 1. After
  \<^verbatim>\<open>mutate()\<close> they sum to 1. After \<^verbatim>\<open>select()\<close> they sum to 1 when the normalization
  sum, the sum over all genotypes \<open>j\<close> of \<^verbatim>\<open>population[j]*exp(fitness[j])\<close>, is not
  zero, and it is not zero when no frequency is negative. After \<^verbatim>\<open>recombine()\<close>, in
  either recombination model and with the transform pair of the specification,
  they sum to 1. A \<^verbatim>\<open>resample(n)\<close> with a positive target size stays within the
  real numbers, and when it does not return \<^verbatim>\<open>HG_EXTINCT\<close> they sum to 1 after it;
  the cutoff \<^verbatim>\<open>HG_CONTINUOUS\<close> is not negative and the epsilon \<^verbatim>\<open>HG_NOTHING\<close> is
  positive.
\<close>


theorem operators_keep_total_mass:
  fixes ext :: "'r externals" and st :: "'r haploid_gt_dis" and n :: real
  defines "L \<equiv> number_of_loci st"
    and "p \<equiv> func (population st)"
    and "f \<equiv> func (fitness st)"
    and "N \<equiv> (if n < 1 then population_size st else n)"
  assumes one: "total_mass st = 1"
    and dimP: "dimension (population st) = number_of_loci st"
    and dimR: "dimension (recombinants st) = number_of_loci st"
    and cutoff: "0 \<le> HG_CONTINUOUS ext"
    and eps: "0 < HG_NOTHING ext"
  shows "((\<Sum>j<2 ^ L. p j * exp (f j)) \<noteq> 0 \<longrightarrow> total_mass (snd (select st)) = 1)
    \<and> ((\<forall>i<2 ^ L. 0 \<le> p i) \<longrightarrow> (\<Sum>j<2 ^ L. p j * exp (f j)) \<noteq> 0)
    \<and> total_mass (snd (mutate st)) = 1
    \<and> total_mass (snd (recombine (spec_transforms ext) st)) = 1
    \<and> (0 < N \<longrightarrow> (\<exists>code st'. resample ext n st = Some (code, st')
                      \<and> (code \<noteq> HG_EXTINCT \<longrightarrow> total_mass st' = 1)))"
proof -
  have p_mass: "(\<Sum>i<2 ^ L. p i) = 1"
    using one by (simp add: total_mass_def L_def p_def)
  have a: "(\<Sum>j<2 ^ L. p j * exp (f j)) \<noteq> 0 \<longrightarrow> total_mass (snd (select st)) = 1"
    unfolding L_def p_def f_def using select_keeps_mass [OF dimP] by blast
  have b: "(\<forall>i<2 ^ L. 0 \<le> p i) \<longrightarrow> (\<Sum>j<2 ^ L. p j * exp (f j)) \<noteq> 0"
    using select_norm_positive [OF p_mass] by blast
  have c: "total_mass (snd (mutate st)) = 1"
    using one mutate_keeps_mass [of st] by (simp add: total_mass_def number_of_loci_kept)
  have d: "total_mass (snd (recombine (spec_transforms ext) st)) = 1"
    using one dimR
    by (rule recombine_keeps_mass)
      (simp_all add: spec_transforms_fields walsh_func_to_coeff_func walsh_coeff_to_func_mass)
  have e: "0 < N \<longrightarrow> (\<exists>code st'. resample ext n st = Some (code, st')
                      \<and> (code \<noteq> HG_EXTINCT \<longrightarrow> total_mass st' = 1))"
    unfolding N_def using resample_keeps_mass [OF dimP _ cutoff eps] by blast
  from a b c d e show ?thesis by blast
qed

theorem operators_keep_total_mass_witness:
  "total_mass (snd (select (example_engine (\<lambda>i. if i = 0 then 1 / 4 else 3 / 4)
       (\<lambda>i. if i = 0 then 0 else ln 2) (\<lambda>fb l. 1 / 100)))) = 1
   \<and> total_mass (snd (mutate (example_engine (\<lambda>i. if i = 0 then 1 / 4 else 3 / 4)
       (\<lambda>i. if i = 0 then 0 else ln 2) (\<lambda>fb l. 1 / 100)))) = 1
   \<and> total_mass (snd (recombine (spec_transforms example_externals)
       (example_engine (\<lambda>i. if i = 0 then 1 / 4 else 3 / 4)
       (\<lambda>i. if i = 0 then 0 else ln 2) (\<lambda>fb l. 1 / 100)))) = 1
   \<and> map_option (\<lambda>r. (fst r, total_mass (snd r))) (resample example_externals 0
       (example_engine (\<lambda>i. if i = 0 then 1 / 4 else 3 / 4)
       (\<lambda>i. if i = 0 then 0 else ln 2) (\<lambda>fb l. 1 / 100))) = Some (OK, 1)"
proof -
  let ?E = "example_engine (\<lambda>i. if i = 0 then 1 / 4 else 3 / 4)
       (\<lambda>i. if i = 0 then 0 else ln 2) (\<lambda>fb l. 1 / 100)"
  have one: "total_mass ?E = 1"
    by (simp add: total_mass_def example_engine_fields sum_lessThan_2)
  have cutoff: "0 \<le> HG_CONTINUOUS example_externals"
    by (simp add: example_externals_def)
  have eps: "0 < HG_NOTHING example_externals"
    by (simp add: example_externals_def)
  have nonneg: "\<forall>i<2 ^ number_of_loci ?E. 0 \<le> func (population ?E) i"
    by (simp add: example_engine_fields)
  have size: "0 < (if (0::real) < 1 then population_size ?E else 0)"
    by (simp add: example_engine_more)
  have alive: "map_option fst (resample example_externals 0 ?E) = Some OK"
    by (rule example_resample_alive)
  from operators_keep_total_mass [OF one example_engine_dimensions(2) example_engine_dimensions(1)
      cutoff eps, of 0] nonneg size alive
  show ?thesis by auto
qed

text \<open>
  C4, as stated, has no condition on the normalization sum of \<^verbatim>\<open>select()\<close> and none
  on the target size of \<^verbatim>\<open>resample()\<close>. On the one-locus engine with the values
  \<open>(2, -1)\<close>, which sum to 1, and the fitness \<open>(0, ln 2)\<close> the normalization sum is
  \<open>2 * 1 - 1 * 2 = 0\<close>; \<^verbatim>\<open>select()\<close> returns 0 and the values do not sum to 1
  afterwards. (The source divides by zero there and leaves values that are no
  numbers; in \<open>select\<close> a quotient by zero is zero.) On the one-locus engine with
  the values \<open>(1/4, 3/4)\<close> and the stored \<^verbatim>\<open>population_size\<close> 0, \<^verbatim>\<open>resample(0)\<close> divides
  by the target size 0; the source returns 0 with values that are no numbers,
  which do not sum to 1, and the result is \<open>None\<close> here.
\<close>


theorem normalization_divides_by_zero:
  "total_mass (example_engine (\<lambda>i. if i = 0 then 2 else - 1) (\<lambda>i. if i = 0 then 0 else ln 2) (\<lambda>fb l. 0)) = 1
   \<and> fst (select (example_engine (\<lambda>i. if i = 0 then 2 else - 1) (\<lambda>i. if i = 0 then 0 else ln 2) (\<lambda>fb l. 0))) = OK
   \<and> total_mass (snd (select (example_engine (\<lambda>i. if i = 0 then 2 else - 1)
        (\<lambda>i. if i = 0 then 0 else ln 2) (\<lambda>fb l. 0)))) \<noteq> 1
   \<and> total_mass ((example_engine (\<lambda>i. if i = 0 then 1 / 4 else 3 / 4) (\<lambda>i. 0) (\<lambda>fb l. 0))\<lparr>population_size := 0\<rparr>) = 1
   \<and> resample example_externals 0
        ((example_engine (\<lambda>i. if i = 0 then 1 / 4 else 3 / 4) (\<lambda>i. 0) (\<lambda>fb l. 0))\<lparr>population_size := 0\<rparr>)
      = None"
proof -
  let ?E = "example_engine (\<lambda>i. if i = 0 then 2 else - 1) (\<lambda>i. if i = 0 then 0 else ln 2) (\<lambda>fb l. 0)"
  let ?Z = "(example_engine (\<lambda>i. if i = 0 then 1 / 4 else 3 / 4) (\<lambda>i. 0) (\<lambda>fb l. 0))\<lparr>population_size := 0\<rparr>"
  have a: "total_mass ?E = 1"
    by (simp add: total_mass_def example_engine_fields sum_lessThan_2)
  have b: "fst (select ?E) = OK"
    by (simp add: select_def Let_def split: prod.splits)
  have "total_mass (snd (select ?E)) = 0"
    unfolding total_mass_def number_of_loci_kept select_population [OF example_engine_dimensions(2)]
    by (simp add: example_engine_fields sum_lessThan_2)
  then have c: "total_mass (snd (select ?E)) \<noteq> 1" by simp
  have d: "total_mass ?Z = 1"
    by (simp add: total_mass_def example_engine_fields sum_lessThan_2)
  have e: "resample example_externals 0 ?Z = None"
    by (simp add: resample_def resample_with_def)
  from a b c d e show ?thesis by simp
qed

end
